theory Spec2Isabelle
  imports
    Main
    "HOL-Library.Finite_Map"
    "HOL-Library.List_Lexorder"
    "HOL-Library.Char_ord"
begin

section \<open>Go values\<close>

text \<open>
  A Go \<^verbatim>\<open>string\<close> is a sequence of bytes, not necessarily valid UTF-8: it is a
  \<^typ>\<open>string\<close> (a list of 8-bit \<^typ>\<open>char\<close>s), ordered bytewise as Go's
  \<^verbatim>\<open>strings.Compare\<close> orders it. A rune is an \<^typ>\<open>int\<close> (Go's \<^verbatim>\<open>int32\<close>; no
  arithmetic here leaves its range).

  A \<^verbatim>\<open>map[string]string\<close> is either \<^verbatim>\<open>nil\<close> or a finite map: \<open>None\<close> is the
  \<^verbatim>\<open>nil\<close> map, which reads as empty and panics when assigned to.
\<close>

type_synonym gomap = "(string, string) fmap option"

definition bsl :: char where
  "bsl = CHR 0x5C"

definition dqt :: char where
  "dqt = CHR 0x22"

section \<open>Package \<^verbatim>\<open>unicode/utf8\<close>\<close>

definition RuneError :: int where
  "RuneError = 0xFFFD"

definition RuneSelf :: nat where
  "RuneSelf = 0x80"

definition UTFMax :: nat where
  "UTFMax = 4"

text \<open>
  The tables \<^verbatim>\<open>first\<close> and \<^verbatim>\<open>acceptRanges\<close> of \<^verbatim>\<open>unicode/utf8\<close>: for a lead byte of a
  multi-byte sequence, the length of the sequence and the range accepted for its second
  byte; \<open>None\<close> for the bytes the table marks invalid (\<^verbatim>\<open>0x80\<close>-\<^verbatim>\<open>0xC1\<close>,
  \<^verbatim>\<open>0xF5\<close>-\<^verbatim>\<open>0xFF\<close>).
\<close>

definition utf8_first :: "nat \<Rightarrow> (nat \<times> nat \<times> nat) option" where
  "utf8_first s0 =
     (if 0xC2 \<le> s0 \<and> s0 \<le> 0xDF then Some (2, 0x80, 0xBF)
      else if s0 = 0xE0 then Some (3, 0xA0, 0xBF)
      else if 0xE1 \<le> s0 \<and> s0 \<le> 0xEC then Some (3, 0x80, 0xBF)
      else if s0 = 0xED then Some (3, 0x80, 0x9F)
      else if 0xEE \<le> s0 \<and> s0 \<le> 0xEF then Some (3, 0x80, 0xBF)
      else if s0 = 0xF0 then Some (4, 0x90, 0xBF)
      else if 0xF1 \<le> s0 \<and> s0 \<le> 0xF3 then Some (4, 0x80, 0xBF)
      else if s0 = 0xF4 then Some (4, 0x80, 0x8F)
      else None)"

text \<open>
  \<^verbatim>\<open>utf8.DecodeRuneInString\<close> (and \<^verbatim>\<open>utf8.DecodeRune\<close>): the first rune of \<open>s\<close> and
  its width in bytes; \<open>(RuneError, 0)\<close> on the empty string and \<open>(RuneError, 1)\<close> on an
  invalid encoding. The masks and shifts of the Go code are written arithmetically:
  \<^verbatim>\<open>b & 0x3F\<close> is \<open>b mod 64\<close>, \<^verbatim>\<open>x << 6\<close> is \<open>x * 64\<close>, and \<^verbatim>\<open>|\<close> joins disjoint
  bit fields, so it is \<open>+\<close>.
\<close>

definition DecodeRuneInString :: "string \<Rightarrow> int \<times> nat" where
  "DecodeRuneInString s =
     (case s of
        [] \<Rightarrow> (RuneError, 0)
      | c0 # _ \<Rightarrow>
          (let s0 = (of_char c0 :: nat) in
           if s0 < RuneSelf then (int s0, 1)
           else
             (case utf8_first s0 of
                None \<Rightarrow> (RuneError, 1)
              | Some (sz, lo, hi) \<Rightarrow>
                  if length s < sz then (RuneError, 1)
                  else
                    (let s1 = (of_char (s ! 1) :: nat) in
                     if s1 < lo \<or> hi < s1 then (RuneError, 1)
                     else if sz \<le> 2 then (int ((s0 mod 32) * 64 + s1 mod 64), 2)
                     else
                       (let s2 = (of_char (s ! 2) :: nat) in
                        if s2 < 0x80 \<or> 0xBF < s2 then (RuneError, 1)
                        else if sz \<le> 3 then
                          (int ((s0 mod 16) * 4096 + (s1 mod 64) * 64 + s2 mod 64), 3)
                        else
                          (let s3 = (of_char (s ! 3) :: nat) in
                           if s3 < 0x80 \<or> 0xBF < s3 then (RuneError, 1)
                           else
                             (int ((s0 mod 8) * 262144 + (s1 mod 64) * 4096
                                   + (s2 mod 64) * 64 + s3 mod 64), 4)))))))"

text \<open>
  \<^verbatim>\<open>utf8.EncodeRune\<close> / \<^verbatim>\<open>utf8.AppendRune\<close>: the UTF-8 encoding of a rune. The Go
  code compares \<^verbatim>\<open>uint32(r)\<close>, here \<open>i\<close>, so that a negative rune is out of range; a
  rune out of range or in the surrogate range is encoded as \<open>RuneError\<close>. (\<^verbatim>\<open>r >> 6\<close>
  is \<open>div 64\<close>, and \<^verbatim>\<open>byte(x)\<close> truncates as \<^const>\<open>char_of\<close> does.)
\<close>

definition EncodeRune :: "int \<Rightarrow> string" where
  "EncodeRune r =
     (let i = nat (r mod 2 ^ 32) in
      if i \<le> 0x7F then [char_of i]
      else if i \<le> 0x7FF then [char_of (0xC0 + i div 64), char_of (0x80 + i mod 64)]
      else
        (let i' = (if 0x10FFFF < i \<or> (0xD800 \<le> i \<and> i \<le> 0xDFFF) then nat RuneError else i) in
         if i' \<le> 0xFFFF then
           [char_of (0xE0 + i' div 4096), char_of (0x80 + (i' div 64) mod 64),
            char_of (0x80 + i' mod 64)]
         else
           [char_of (0xF0 + i' div 262144), char_of (0x80 + (i' div 4096) mod 64),
            char_of (0x80 + (i' div 64) mod 64), char_of (0x80 + i' mod 64)]))"

text \<open>
  \<^verbatim>\<open>utf8.ValidString\<close>: no position of \<open>s\<close> decodes to \<open>(RuneError, 1)\<close>.
\<close>

lemma DecodeRuneInString_width:
  "s \<noteq> [] \<Longrightarrow> 1 \<le> snd (DecodeRuneInString s) \<and> snd (DecodeRuneInString s) \<le> 4"
  by (cases s) (auto simp: DecodeRuneInString_def Let_def split: option.splits)

lemma DecodeRuneInString_pos:
  "(c, w) = DecodeRuneInString (b # s) \<Longrightarrow> 0 < w"
  using DecodeRuneInString_width [of "b # s"] by (metis list.distinct(1) snd_conv less_eq_Suc_le One_nat_def)

function ValidString :: "string \<Rightarrow> bool" where
  "ValidString [] = True"
| "ValidString (b # s) =
     (case DecodeRuneInString (b # s) of
        (c, w) \<Rightarrow> \<not> (c = RuneError \<and> w = 1) \<and> ValidString (drop w (b # s)))"
  by pat_completeness auto
termination
  by (relation "measure length") (auto dest: DecodeRuneInString_pos)

section \<open>Package \<^verbatim>\<open>encoding/json\<close>: encoding a \<^verbatim>\<open>map[string]string\<close>\<close>

text \<open>
  The repository calls \<^verbatim>\<open>json.NewEncoder(fs.f).Encode(&fs.ms.m)\<close>: the encoder of the
  standard library with its default options (\<^verbatim>\<open>escapeHTML\<close> on, no indentation). The
  definitions of this section follow \<^verbatim>\<open>encoding/json\<close>'s \<^verbatim>\<open>appendString\<close>,
  \<^verbatim>\<open>mapEncoder.encode\<close> and \<^verbatim>\<open>Encoder.Encode\<close> on that type.
\<close>

definition hex :: "nat \<Rightarrow> char" where
  "hex n = ''0123456789abcdef'' ! n"

text \<open>
  \<^verbatim>\<open>htmlSafeSet\<close>: the ASCII bytes written as they are. The others are the control
  characters, the double quote, the backslash and, for HTML safety, \<^verbatim>\<open>&\<close>, \<^verbatim>\<open><\<close>,
  \<^verbatim>\<open>>\<close>.
\<close>

definition htmlSafeSet :: "char \<Rightarrow> bool" where
  "htmlSafeSet b =
     (0x20 \<le> (of_char b :: nat) \<and> (of_char b :: nat) < 0x80
      \<and> b \<noteq> dqt \<and> b \<noteq> CHR ''&'' \<and> b \<noteq> CHR ''<'' \<and> b \<noteq> CHR ''>'' \<and> b \<noteq> bsl)"

text \<open>
  The \<^verbatim>\<open>switch b\<close> of \<^verbatim>\<open>appendString\<close>, for an ASCII byte outside \<^verbatim>\<open>htmlSafeSet\<close>.
  (Go releases before 1.22 write \<^verbatim>\<open>\u0008\<close> and \<^verbatim>\<open>\u000c\<close> for backspace and form
  feed; the decoder reads both forms alike.)
\<close>

definition escape_byte :: "char \<Rightarrow> string" where
  "escape_byte b =
     (if b = bsl \<or> b = dqt then [bsl, b]
      else if b = CHR 0x08 then [bsl, CHR ''b'']
      else if b = CHR 0x0C then [bsl, CHR ''f'']
      else if b = CHR 0x0A then [bsl, CHR ''n'']
      else if b = CHR 0x0D then [bsl, CHR ''r'']
      else if b = CHR 0x09 then [bsl, CHR ''t'']
      else [bsl, CHR ''u'', CHR ''0'', CHR ''0'',
            hex (of_char b div 16), hex (of_char b mod 16)])"

text \<open>
  The loop of \<^verbatim>\<open>appendString\<close> over the bytes of \<open>src\<close> that are left: a safe ASCII byte
  and a well-formed multi-byte rune are copied, an invalid byte becomes the six
  characters of the escape for U+FFFD, and U+2028 and U+2029 are escaped.
\<close>

function appendString_loop :: "string \<Rightarrow> string" where
  "appendString_loop [] = []"
| "appendString_loop (b # src) =
     (if (of_char b :: nat) < RuneSelf then
        (if htmlSafeSet b then b # appendString_loop src
         else escape_byte b @ appendString_loop src)
      else
        (case DecodeRuneInString (take UTFMax (b # src)) of
           (c, w) \<Rightarrow>
             if c = RuneError \<and> w = 1 then
               [bsl, CHR ''u'', CHR ''f'', CHR ''f'', CHR ''f'', CHR ''d'']
               @ appendString_loop (drop w (b # src))
             else if c = 0x2028 \<or> c = 0x2029 then
               [bsl, CHR ''u'', CHR ''2'', CHR ''0'', CHR ''2'', hex (nat (c mod 16))]
               @ appendString_loop (drop w (b # src))
             else take w (b # src) @ appendString_loop (drop w (b # src))))"
  by pat_completeness auto
termination
  by (relation "measure length") (auto simp: UTFMax_def dest: DecodeRuneInString_pos)

definition appendString :: "string \<Rightarrow> string" where
  "appendString src = dqt # appendString_loop src @ [dqt]"

text \<open>
  The loop of \<^verbatim>\<open>mapEncoder.encode\<close> over the entries sorted by key; \<open>i\<close> is the index
  of the first entry left.
\<close>

fun mapEncoder_entries :: "nat \<Rightarrow> (string \<times> string) list \<Rightarrow> string" where
  "mapEncoder_entries i [] = []"
| "mapEncoder_entries i ((k, v) # kvs) =
     (if 0 < i then '','' else []) @ appendString k @ '':'' @ appendString v
     @ mapEncoder_entries (i + 1) kvs"

definition mapEncoder_encode :: "gomap \<Rightarrow> string" where
  "mapEncoder_encode mo =
     (case mo of
        None \<Rightarrow> ''null''
      | Some m \<Rightarrow> ''{'' @ mapEncoder_entries 0 (sorted_list_of_fmap m) @ ''}'')"

text \<open>
  \<^verbatim>\<open>Encoder.Encode\<close>: the bytes it hands to the writer in one \<^verbatim>\<open>Write\<close> call, the
  encoding followed by a newline. Marshalling a \<^verbatim>\<open>map[string]string\<close> cannot fail.
\<close>

definition Encoder_Encode :: "gomap \<Rightarrow> string" where
  "Encoder_Encode mo = mapEncoder_encode mo @ [CHR 0x0A]"

section \<open>Package \<^verbatim>\<open>encoding/json\<close>: decoding into a \<^verbatim>\<open>map[string]string\<close>\<close>

text \<open>
  The repository calls \<^verbatim>\<open>json.NewDecoder(file).Decode(&m)\<close> once. \<^verbatim>\<open>Decode\<close> reads
  the first JSON value of the stream and nothing after it, and stores it in \<^verbatim>\<open>m\<close>.
  The definitions follow the scanner (\<^verbatim>\<open>stateBeginValue\<close>, \<^verbatim>\<open>stateInString\<close>, ...),
  \<^verbatim>\<open>unquoteBytes\<close> and \<^verbatim>\<open>decodeState.object\<close>.
\<close>

definition isSpace :: "char \<Rightarrow> bool" where
  "isSpace c = (c = CHR '' '' \<or> c = CHR 0x09 \<or> c = CHR 0x0D \<or> c = CHR 0x0A)"

definition skipSpace :: "string \<Rightarrow> string" where
  "skipSpace s = dropWhile isSpace s"

definition isHex :: "char \<Rightarrow> bool" where
  "isHex c = ((CHR ''0'' \<le> c \<and> c \<le> CHR ''9'') \<or> (CHR ''a'' \<le> c \<and> c \<le> CHR ''f'')
              \<or> (CHR ''A'' \<le> c \<and> c \<le> CHR ''F''))"

text \<open>
  The scanner inside a string literal, after the opening quote (\<^verbatim>\<open>stateInString\<close>,
  \<^verbatim>\<open>stateInStringEsc\<close>, \<^verbatim>\<open>stateInStringEscU\<close> to \<^verbatim>\<open>stateInStringEscU123\<close>): the
  bytes of the literal between the quotes and the input after the closing quote, or
  \<open>None\<close> when the scanner reports an error or the input ends inside the literal.
\<close>

fun stateInString :: "string \<Rightarrow> (string \<times> string) option" where
  "stateInString [] = None"
| "stateInString (c # s) =
     (if c = dqt then Some ([], s)
      else if c = bsl then
        (case s of
           [] \<Rightarrow> None
         | e # s' \<Rightarrow>
             if e \<in> set [CHR ''b'', CHR ''f'', CHR ''n'', CHR ''r'', CHR ''t'', bsl, CHR ''/'', dqt]
             then map_option (\<lambda>(lit, rest). (c # e # lit, rest)) (stateInString s')
             else if e = CHR ''u'' then
               (case s' of
                  h1 # h2 # h3 # h4 # s'' \<Rightarrow>
                    if isHex h1 \<and> isHex h2 \<and> isHex h3 \<and> isHex h4
                    then map_option (\<lambda>(lit, rest). (c # e # h1 # h2 # h3 # h4 # lit, rest))
                           (stateInString s'')
                    else None
                | _ \<Rightarrow> None)
             else None)
      else if (of_char c :: nat) < 0x20 then None
      else map_option (\<lambda>(lit, rest). (c # lit, rest)) (stateInString s))"

text \<open>\<^verbatim>\<open>getu4\<close>: the rune of a \<^verbatim>\<open>\uXXXX\<close> escape at the head of \<open>s\<close>, or \<open>-1\<close>.\<close>

fun getu4_digits :: "string \<Rightarrow> int \<Rightarrow> int" where
  "getu4_digits [] r = r"
| "getu4_digits (c # cs) r =
     (if CHR ''0'' \<le> c \<and> c \<le> CHR ''9'' then
        getu4_digits cs (r * 16 + (of_char c - of_char (CHR ''0'')))
      else if CHR ''a'' \<le> c \<and> c \<le> CHR ''f'' then
        getu4_digits cs (r * 16 + (of_char c - of_char (CHR ''a'') + 10))
      else if CHR ''A'' \<le> c \<and> c \<le> CHR ''F'' then
        getu4_digits cs (r * 16 + (of_char c - of_char (CHR ''A'') + 10))
      else - 1)"

definition getu4 :: "string \<Rightarrow> int" where
  "getu4 s =
     (if length s < 6 \<or> s ! 0 \<noteq> bsl \<or> s ! 1 \<noteq> CHR ''u'' then - 1
      else getu4_digits (take 4 (drop 2 s)) 0)"

text \<open>\<^verbatim>\<open>utf16.IsSurrogate\<close> and \<^verbatim>\<open>utf16.DecodeRune\<close>.\<close>

definition ReplacementChar :: int where
  "ReplacementChar = 0xFFFD"

definition IsSurrogate :: "int \<Rightarrow> bool" where
  "IsSurrogate r = (0xD800 \<le> r \<and> r < 0xE000)"

definition utf16_DecodeRune :: "int \<Rightarrow> int \<Rightarrow> int" where
  "utf16_DecodeRune r1 r2 =
     (if 0xD800 \<le> r1 \<and> r1 < 0xDC00 \<and> 0xDC00 \<le> r2 \<and> r2 < 0xE000
      then (r1 - 0xD800) * 1024 + (r2 - 0xDC00) + 0x10000
      else ReplacementChar)"

text \<open>
  \<^verbatim>\<open>unquoteBytes\<close> on the bytes between the quotes. Its first loop finds the length
  \<open>r\<close> of the longest prefix with nothing to unquote; its second loop unquotes the rest,
  coercing invalid UTF-8 to U+FFFD. \<open>None\<close> is \<^verbatim>\<open>ok == false\<close>.
\<close>

function unquote_prefix :: "string \<Rightarrow> nat" where
  "unquote_prefix [] = 0"
| "unquote_prefix (c # s) =
     (if c = bsl \<or> c = dqt \<or> (of_char c :: nat) < 0x20 then 0
      else if (of_char c :: nat) < RuneSelf then 1 + unquote_prefix s
      else
        (case DecodeRuneInString (c # s) of
           (rr, w) \<Rightarrow>
             if rr = RuneError \<and> w = 1 then 0
             else w + unquote_prefix (drop w (c # s))))"
  by pat_completeness auto
termination
  by (relation "measure length") (auto dest: DecodeRuneInString_pos)

function unquote_loop :: "string \<Rightarrow> string option" where
  "unquote_loop [] = Some []"
| "unquote_loop (c # s) =
     (if c = bsl then
        (case s of
           [] \<Rightarrow> None
         | e # s' \<Rightarrow>
             if e = dqt \<or> e = bsl \<or> e = CHR ''/'' \<or> e = CHR 0x27 then
               map_option ((#) e) (unquote_loop s')
             else if e = CHR ''b'' then map_option ((#) (CHR 0x08)) (unquote_loop s')
             else if e = CHR ''f'' then map_option ((#) (CHR 0x0C)) (unquote_loop s')
             else if e = CHR ''n'' then map_option ((#) (CHR 0x0A)) (unquote_loop s')
             else if e = CHR ''r'' then map_option ((#) (CHR 0x0D)) (unquote_loop s')
             else if e = CHR ''t'' then map_option ((#) (CHR 0x09)) (unquote_loop s')
             else if e = CHR ''u'' then
               (let rr = getu4 (c # s) in
                if rr < 0 then None
                else if IsSurrogate rr then
                  (let rr1 = getu4 (drop 6 (c # s));
                       dec = utf16_DecodeRune rr rr1 in
                   if dec \<noteq> ReplacementChar then
                     map_option ((@) (EncodeRune dec)) (unquote_loop (drop 12 (c # s)))
                   else
                     map_option ((@) (EncodeRune ReplacementChar))
                       (unquote_loop (drop 6 (c # s))))
                else map_option ((@) (EncodeRune rr)) (unquote_loop (drop 6 (c # s))))
             else None)
      else if c = dqt \<or> (of_char c :: nat) < 0x20 then None
      else if (of_char c :: nat) < RuneSelf then map_option ((#) c) (unquote_loop s)
      else
        (case DecodeRuneInString (c # s) of
           (rr, w) \<Rightarrow> map_option ((@) (EncodeRune rr)) (unquote_loop (drop w (c # s)))))"
  by pat_completeness auto
termination
  by (relation "measure length") (auto dest: DecodeRuneInString_pos)

definition unquoteBytes :: "string \<Rightarrow> string option" where
  "unquoteBytes s =
     (let r = unquote_prefix s in
      if r = length s then Some s
      else map_option ((@) (take r s)) (unquote_loop (drop r s)))"

text \<open>
  The value of an object member, from its first byte. The target is a Go \<^verbatim>\<open>string\<close>:
  a string literal is unquoted into it and \<^verbatim>\<open>null\<close> leaves it the empty string. A
  member value that starts with any other byte is either malformed (a
  \<^verbatim>\<open>*json.SyntaxError\<close> or \<^verbatim>\<open>io.ErrUnexpectedEOF\<close>) or a well-formed number, boolean,
  array or object (a \<^verbatim>\<open>*json.UnmarshalTypeError\<close>, returned when the value has been
  read): \<^verbatim>\<open>Decode\<close> returns an error in each case, here \<open>None\<close>.
\<close>

definition member_value :: "string \<Rightarrow> (string \<times> string) option" where
  "member_value s =
     (case s of
        [] \<Rightarrow> None
      | c # s' \<Rightarrow>
          if c = dqt then
            (case stateInString s' of
               None \<Rightarrow> None
             | Some (lit, rest) \<Rightarrow>
                 (case unquoteBytes lit of
                    None \<Rightarrow> None
                  | Some v \<Rightarrow> Some (v, rest)))
          else if c = CHR ''n'' then
            (case s' of
               c1 # c2 # c3 # rest \<Rightarrow>
                 if c1 = CHR ''u'' \<and> c2 = CHR ''l'' \<and> c3 = CHR ''l'' then Some ([], rest)
                 else None
             | _ \<Rightarrow> None)
          else None)"

lemma stateInString_shorter:
  "stateInString s = Some (lit, rest) \<Longrightarrow> length rest < length s"
proof (induction s arbitrary: lit rest rule: stateInString.induct)
  case 1
  then show ?case by simp
next
  case (2 c s)
  show ?case
  proof (cases "c = dqt")
    case True
    with "2.prems" show ?thesis by simp
  next
    case notq: False
    show ?thesis
    proof (cases "c = bsl")
      case True
      note isb = this
      show ?thesis
      proof (cases s)
        case Nil
        with "2.prems" notq isb show ?thesis by simp
      next
        case (Cons e s')
        show ?thesis
        proof (cases "e \<in> set [CHR ''b'', CHR ''f'', CHR ''n'', CHR ''r'', CHR ''t'', bsl, CHR ''/'', dqt]")
          case True
          with "2.prems" notq isb Cons obtain l where "stateInString s' = Some (l, rest)"
            by (auto simp del: set_simps split: option.splits)
          from "2.IH"(1) [OF notq isb Cons True this] Cons show ?thesis by simp
        next
          case nesc: False
          show ?thesis
          proof (cases "e = CHR ''u''")
            case True
            with "2.prems" notq isb Cons nesc obtain h1 h2 h3 h4 s'' l where
              s': "s' = h1 # h2 # h3 # h4 # s''" and hx: "isHex h1 \<and> isHex h2 \<and> isHex h3 \<and> isHex h4"
              and r: "stateInString s'' = Some (l, rest)"
              by (auto simp del: set_simps split: option.splits list.splits if_splits)
            from "2.IH"(2) [OF notq isb Cons nesc True s' refl refl refl hx r] Cons s' show ?thesis by simp
          next
            case False
            with "2.prems" notq isb Cons nesc show ?thesis by (simp del: set_simps)
          qed
        qed
      qed
    next
      case False
      note nb = this
      show ?thesis
      proof (cases "(of_char c :: nat) < 0x20")
        case True
        with "2.prems" notq nb show ?thesis by simp
      next
        case False
        with "2.prems" notq nb obtain l where "stateInString s = Some (l, rest)"
          by (auto split: option.splits)
        from "2.IH"(3) [OF notq nb False this] show ?thesis by simp
      qed
    qed
  qed
qed

declare stateInString.simps(2) [simp del]

lemma member_value_shorter:
  "member_value s = Some (v, rest) \<Longrightarrow> length rest < length s"
  unfolding member_value_def
  by (auto split: list.splits if_splits option.splits prod.splits
           dest!: stateInString_shorter)

lemma skipSpace_length: "length (skipSpace s) \<le> length s"
  by (simp add: skipSpace_def length_dropWhile_le)

text \<open>
  The loop of \<^verbatim>\<open>decodeState.object\<close> into a map, from the place where a key is
  expected (scanner state \<^verbatim>\<open>stateBeginString\<close>): key, colon, value, then a comma and the
  next member or the closing brace. A member overwrites an earlier one of the same key.
\<close>

function object_members :: "(string, string) fmap \<Rightarrow> string \<Rightarrow> (string, string) fmap option" where
  "object_members mp s =
     (case skipSpace s of
        [] \<Rightarrow> None
      | c # s1 \<Rightarrow>
          if c \<noteq> dqt then None
          else
            (case stateInString s1 of
               None \<Rightarrow> None
             | Some (lit, s2) \<Rightarrow>
                 (case unquoteBytes lit of
                    None \<Rightarrow> None
                  | Some key \<Rightarrow>
                      (case skipSpace s2 of
                         [] \<Rightarrow> None
                       | c2 # s3 \<Rightarrow>
                           if c2 \<noteq> CHR '':'' then None
                           else
                             (case member_value (skipSpace s3) of
                                None \<Rightarrow> None
                              | Some (v, s4) \<Rightarrow>
                                  (case skipSpace s4 of
                                     [] \<Rightarrow> None
                                   | c3 # s5 \<Rightarrow>
                                       if c3 = CHR '','' then object_members (fmupd key v mp) s5
                                       else if c3 = CHR ''}'' then Some (fmupd key v mp)
                                       else None))))))"
  by pat_completeness auto
termination
proof (relation "measure (\<lambda>(mp, s). length s)", goal_cases)
  case 1
  then show ?case by simp
next
  case (2 mp s c s1 x2 lit s2 key c2 s3 x2b v s4 c3 s5)
  have "length (c3 # s5) \<le> length s4"
    using skipSpace_length [of s4] 2(10) by simp
  moreover have "length s4 < length (skipSpace s3)"
    using member_value_shorter [of "skipSpace s3" v s4] 2(8,9) by simp
  moreover have "length (c2 # s3) \<le> length s2"
    using skipSpace_length [of s2] 2(6) by simp
  moreover have "length s2 < length s1"
    using stateInString_shorter [of s1 lit s2] 2(3,4) by simp
  moreover have "length (c # s1) \<le> length s"
    using skipSpace_length [of s] 2(1) by simp
  ultimately show ?case
    using skipSpace_length [of s3] by simp
qed

declare object_members.simps [simp del]

text \<open>
  An object, after its opening brace (scanner state \<^verbatim>\<open>stateBeginStringOrEmpty\<close>).
\<close>

definition decode_object :: "(string, string) fmap \<Rightarrow> string \<Rightarrow> (string, string) fmap option" where
  "decode_object mp s =
     (case skipSpace s of
        [] \<Rightarrow> None
      | c # s' \<Rightarrow> if c = CHR ''}'' then Some mp else object_members mp (c # s'))"

section \<open>Errors\<close>

text \<open>
  A Go \<^verbatim>\<open>error\<close> value. Those of the libraries are kept by kind: \<open>io_EOF\<close> is the
  sentinel \<^verbatim>\<open>io.EOF\<close>; \<open>json_DecodeError\<close> stands for the errors of \<^verbatim>\<open>Decode\<close> on
  malformed or ill-typed input (\<^verbatim>\<open>*json.SyntaxError\<close>, \<^verbatim>\<open>io.ErrUnexpectedEOF\<close>,
  \<^verbatim>\<open>*json.UnmarshalTypeError\<close>); \<open>os_PathError\<close> is a failed system call with its
  \<^verbatim>\<open>errno\<close>. \<open>fmt_Errorf msg w\<close> is the error made by \<^verbatim>\<open>fmt.Errorf\<close>: \<open>msg\<close> is the
  format expanded up to the \<^verbatim>\<open>%w\<close> verb and \<open>w\<close> the error wrapped there.
\<close>

datatype error =
    io_EOF
  | json_DecodeError
  | os_PathError nat
  | fmt_Errorf string "error option"

text \<open>
  \<^verbatim>\<open>err.Error()\<close>: the text of an error. The texts of the libraries' errors are not
  part of the repository; \<open>lib\<close> gives them.
\<close>

fun Error :: "(error \<Rightarrow> string) \<Rightarrow> error \<Rightarrow> string" where
  "Error lib (fmt_Errorf msg None) = msg"
| "Error lib (fmt_Errorf msg (Some e)) = msg @ Error lib e"
| "Error lib e = lib e"

text \<open>
  \<^verbatim>\<open>Decoder.Decode(&m)\<close> on a stream holding \<open>input\<close>, where \<open>mo\<close> is the value of
  \<^verbatim>\<open>m\<close> before the call: \<open>Inr\<close> the value of \<^verbatim>\<open>m\<close> after a call that returns \<^verbatim>\<open>nil\<close>,
  \<open>Inl\<close> the error otherwise. Input with no byte other than white space gives \<^verbatim>\<open>io.EOF\<close>;
  a top-level \<^verbatim>\<open>null\<close> sets the map to \<^verbatim>\<open>nil\<close>; an object is stored into the map
  (allocated when it is \<^verbatim>\<open>nil\<close>); a value that starts with any other byte is malformed or
  of the wrong type. Nothing after the first value is examined.
\<close>

definition Decoder_Decode :: "string \<Rightarrow> gomap \<Rightarrow> error + gomap" where
  "Decoder_Decode input mo =
     (case skipSpace input of
        [] \<Rightarrow> Inl io_EOF
      | c # s \<Rightarrow>
          if c = CHR ''{'' then
            (case decode_object (case mo of None \<Rightarrow> fmempty | Some mp \<Rightarrow> mp) s of
               None \<Rightarrow> Inl json_DecodeError
             | Some mp' \<Rightarrow> Inr (Some mp'))
          else if c = CHR ''n'' then
            (case s of
               c1 # c2 # c3 # rest \<Rightarrow>
                 if c1 = CHR ''u'' \<and> c2 = CHR ''l'' \<and> c3 = CHR ''l'' then Inr None
                 else Inl json_DecodeError
             | _ \<Rightarrow> Inl json_DecodeError)
          else Inl json_DecodeError)"

section \<open>Package \<^verbatim>\<open>os\<close>: the backing file\<close>

text \<open>
  The file system maps a path to the contents of the file there. Only this program
  changes it. A system call can fail for reasons outside the program: each call takes
  its outcome from the environment, \<open>None\<close> for success and \<open>Some errno\<close> for failure.

  An open file is named by the path it was opened at. Its offset is not modelled: the
  program reads the file once, right after opening it, and the file is opened with
  \<^verbatim>\<open>O_APPEND\<close>, so every write goes to the end of the file wherever \<^verbatim>\<open>Seek\<close> has put
  the offset. Reading an open file is taken to deliver its contents.
\<close>

type_synonym filesystem = "string \<rightharpoonup> string"

datatype File = File (Name: string)

definition file_contents :: "filesystem \<Rightarrow> File \<Rightarrow> string" where
  "file_contents fsys fl = (case fsys (Name fl) of None \<Rightarrow> [] | Some c \<Rightarrow> c)"

text \<open>\<^verbatim>\<open>os.OpenFile(name, O_RDWR|O_CREATE|O_APPEND, 0777)\<close>.\<close>

definition os_OpenFile :: "nat option \<Rightarrow> filesystem \<Rightarrow> string \<Rightarrow> filesystem \<times> (error + File)" where
  "os_OpenFile fails fsys name =
     (case fails of
        Some errno \<Rightarrow> (fsys, Inl (os_PathError errno))
      | None \<Rightarrow>
          (case fsys name of
             None \<Rightarrow> (fsys(name \<mapsto> []), Inr (File name))
           | Some c \<Rightarrow> (fsys, Inr (File name))))"

text \<open>\<^verbatim>\<open>f.Truncate(size)\<close>: the file is cut, or extended with zero bytes, to \<open>size\<close>.\<close>

definition File_Truncate :: "nat option \<Rightarrow> filesystem \<Rightarrow> File \<Rightarrow> nat \<Rightarrow> filesystem \<times> error option" where
  "File_Truncate fails fsys fl sz =
     (case fails of
        Some errno \<Rightarrow> (fsys, Some (os_PathError errno))
      | None \<Rightarrow>
          (let c = file_contents fsys fl in
           (fsys(Name fl \<mapsto> take sz c @ replicate (sz - length c) (CHR 0x00)), None)))"

text \<open>\<^verbatim>\<open>f.Seek(offset, whence)\<close>: it changes nothing that is modelled, and can fail.\<close>

definition File_Seek :: "nat option \<Rightarrow> File \<Rightarrow> nat \<Rightarrow> nat \<Rightarrow> error option" where
  "File_Seek fails fl offset whence = map_option os_PathError fails"

text \<open>
  \<^verbatim>\<open>f.Write(b)\<close> on a file opened with \<^verbatim>\<open>O_APPEND\<close>: \<open>b\<close> is added at the end. A
  failing write \<open>Some (n, errno)\<close> has written the first \<open>n\<close> bytes of \<open>b\<close>.
\<close>

definition File_Write :: "(nat \<times> nat) option \<Rightarrow> filesystem \<Rightarrow> File \<Rightarrow> string \<Rightarrow> filesystem \<times> error option" where
  "File_Write fails fsys fl b =
     (case fails of
        Some (n, errno) \<Rightarrow>
          (fsys(Name fl \<mapsto> file_contents fsys fl @ take n b), Some (os_PathError errno))
      | None \<Rightarrow> (fsys(Name fl \<mapsto> file_contents fsys fl @ b), None))"

section \<open>The storages of \<^verbatim>\<open>main.go\<close>\<close>

text \<open>
  A call either returns or panics. A panic of this program happens before it has
  changed anything, so \<open>Panic\<close> carries no state.
\<close>

datatype 'a outcome = Panic | Return 'a

subsection \<open>\<^verbatim>\<open>MemStorage\<close>\<close>

record MemStorage =
  m :: gomap

text \<open>The map index expression \<^verbatim>\<open>value, ok = ms.m[key]\<close>; a \<^verbatim>\<open>nil\<close> map has no key.\<close>

definition map_index :: "gomap \<Rightarrow> string \<Rightarrow> string \<times> bool" where
  "map_index mo key =
     (case mo of
        None \<Rightarrow> ([], False)
      | Some mp \<Rightarrow> (case fmlookup mp key of None \<Rightarrow> ([], False) | Some v \<Rightarrow> (v, True)))"

definition MemStorage_Get :: "MemStorage \<Rightarrow> string \<Rightarrow> string \<times> error option" where
  "MemStorage_Get s key =
     (case map_index (m s) key of
        (value, ok) \<Rightarrow>
          if \<not> ok then (value, Some (fmt_Errorf ''err not found'' None))
          else (value, None))"

text \<open>\<^verbatim>\<open>ms.m[key] = value\<close> panics on a \<^verbatim>\<open>nil\<close> map.\<close>

definition MemStorage_Set :: "MemStorage \<Rightarrow> string \<Rightarrow> string \<Rightarrow> (MemStorage \<times> error option) outcome" where
  "MemStorage_Set s key value =
     (case m s of
        None \<Rightarrow> Panic
      | Some mp \<Rightarrow> Return (s\<lparr>m := Some (fmupd key value mp)\<rparr>, None))"

definition NewMemStorage :: MemStorage where
  "NewMemStorage = \<lparr>m = Some fmempty\<rparr>"

subsection \<open>\<^verbatim>\<open>FileStorage\<close>\<close>

record FileStorage =
  ms :: MemStorage
  f :: File

text \<open>The outcomes of the three system calls of one \<^verbatim>\<open>Set\<close>.\<close>

record set_io =
  truncate_fails :: "nat option"
  seek_fails :: "nat option"
  write_fails :: "(nat \<times> nat) option"

definition FileStorage_Get :: "FileStorage \<Rightarrow> string \<Rightarrow> string \<times> error option" where
  "FileStorage_Get fs key = MemStorage_Get (ms fs) key"

definition FileStorage_Set ::
  "set_io \<Rightarrow> filesystem \<Rightarrow> FileStorage \<Rightarrow> string \<Rightarrow> string
   \<Rightarrow> (filesystem \<times> FileStorage \<times> error option) outcome" where
  "FileStorage_Set io fsys fs key value =
     (case MemStorage_Set (ms fs) key value of
        Panic \<Rightarrow> Panic
      | Return (ms', Some err) \<Rightarrow>
          Return (fsys, fs\<lparr>ms := ms'\<rparr>,
                  Some (fmt_Errorf ''unable to add new key in memorystorage: '' (Some err)))
      | Return (ms', None) \<Rightarrow>
          (let fs' = fs\<lparr>ms := ms'\<rparr> in
           case File_Truncate (truncate_fails io) fsys (f fs') 0 of
             (fsys1, Some err) \<Rightarrow>
               Return (fsys1, fs', Some (fmt_Errorf ''unable to truncate file: '' (Some err)))
           | (fsys1, None) \<Rightarrow>
               (case File_Seek (seek_fails io) (f fs') 0 0 of
                  Some err \<Rightarrow>
                    Return (fsys1, fs',
                            Some (fmt_Errorf ''unable to get the beginning of file: '' (Some err)))
                | None \<Rightarrow>
                    (case File_Write (write_fails io) fsys1 (f fs') (Encoder_Encode (m (ms fs'))) of
                       (fsys2, Some err) \<Rightarrow>
                         Return (fsys2, fs',
                                 Some (fmt_Errorf ''unable to encode data into the file: '' (Some err)))
                     | (fsys2, None) \<Rightarrow> Return (fsys2, fs', None)))))"

definition NewFileStorage ::
  "nat option \<Rightarrow> filesystem \<Rightarrow> string \<Rightarrow> filesystem \<times> (error + FileStorage)" where
  "NewFileStorage open_fails fsys filename =
     (case os_OpenFile open_fails fsys filename of
        (fsys1, Inl err) \<Rightarrow>
          (fsys1, Inl (fmt_Errorf (''unable to open file '' @ filename @ '': '') (Some err)))
      | (fsys1, Inr file) \<Rightarrow>
          (let m0 = Some fmempty in
           case Decoder_Decode (file_contents fsys1 file) m0 of
             Inl err \<Rightarrow>
               if err \<noteq> io_EOF then
                 (fsys1,
                  Inl (fmt_Errorf (''unable to decode contents of file '' @ filename @ '': '')
                         (Some err)))
               else (fsys1, Inr \<lparr>ms = \<lparr>m = m0\<rparr>, f = file\<rparr>)
           | Inr m1 \<Rightarrow> (fsys1, Inr \<lparr>ms = \<lparr>m = m1\<rparr>, f = file\<rparr>)))"

subsection \<open>The interface \<^verbatim>\<open>Storage\<close> and sequences of calls\<close>

text \<open>
  A value of the interface \<^verbatim>\<open>Storage\<close> is one of the two implementations; \<^verbatim>\<open>s.Get\<close>
  and \<^verbatim>\<open>s.Set\<close> dispatch on it. The handlers of \<^verbatim>\<open>main.go\<close> call nothing else.
\<close>

datatype Storage = InMemory MemStorage | InFile FileStorage

definition Storage_Get :: "Storage \<Rightarrow> string \<Rightarrow> string \<times> error option" where
  "Storage_Get st key =
     (case st of
        InMemory s \<Rightarrow> MemStorage_Get s key
      | InFile fs \<Rightarrow> FileStorage_Get fs key)"

definition Storage_Set ::
  "set_io \<Rightarrow> filesystem \<Rightarrow> Storage \<Rightarrow> string \<Rightarrow> string
   \<Rightarrow> (filesystem \<times> Storage \<times> error option) outcome" where
  "Storage_Set io fsys st key value =
     (case st of
        InMemory s \<Rightarrow>
          (case MemStorage_Set s key value of
             Panic \<Rightarrow> Panic
           | Return (s', err) \<Rightarrow> Return (fsys, InMemory s', err))
      | InFile fs \<Rightarrow>
          (case FileStorage_Set io fsys fs key value of
             Panic \<Rightarrow> Panic
           | Return (fsys', fs', err) \<Rightarrow> Return (fsys', InFile fs', err)))"

text \<open>
  One call on a storage, in the state made of the file system and the storage: \<^verbatim>\<open>Get\<close>
  assigns to nothing and calls no method of the file, so it leaves the state as it is;
  \<^verbatim>\<open>Set\<close> takes the outcomes of its system calls. A call that panics has changed
  nothing.
\<close>

datatype call = CallGet string | CallSet string string set_io

datatype reply = Got string "error option" | SetDone "error option" | Panicked

fun do_call :: "filesystem \<times> Storage \<Rightarrow> call \<Rightarrow> (filesystem \<times> Storage) \<times> reply" where
  "do_call (fsys, st) (CallGet key) =
     ((fsys, st), case Storage_Get st key of (value, err) \<Rightarrow> Got value err)"
| "do_call (fsys, st) (CallSet key value io) =
     (case Storage_Set io fsys st key value of
        Panic \<Rightarrow> ((fsys, st), Panicked)
      | Return (fsys', st', err) \<Rightarrow> ((fsys', st'), SetDone err))"

fun do_calls :: "filesystem \<times> Storage \<Rightarrow> call list \<Rightarrow> filesystem \<times> Storage" where
  "do_calls w [] = w"
| "do_calls w (c # cs) = do_calls (fst (do_call w c)) cs"

text \<open>Whether a map has a key, and whether a call is a \<^verbatim>\<open>Set\<close> of a key.\<close>

definition has_key :: "gomap \<Rightarrow> string \<Rightarrow> bool" where
  "has_key mo key = (case mo of None \<Rightarrow> False | Some mp \<Rightarrow> key |\<in>| fmdom mp)"

fun sets_key :: "string \<Rightarrow> call \<Rightarrow> bool" where
  "sets_key key (CallGet k) = False"
| "sets_key key (CallSet k v io) = (k = key)"

fun is_Get :: "call \<Rightarrow> bool" where
  "is_Get (CallGet k) = True"
| "is_Get (CallSet k v io) = False"

fun Storage_map :: "Storage \<Rightarrow> gomap" where
  "Storage_map (InMemory s) = m s"
| "Storage_map (InFile fs) = m (ms fs)"

text \<open>A map all of whose keys and values are valid UTF-8; the \<^verbatim>\<open>nil\<close> map is one.\<close>

definition ValidMap :: "gomap \<Rightarrow> bool" where
  "ValidMap mo =
     (case mo of
        None \<Rightarrow> True
      | Some mp \<Rightarrow> fmpred (\<lambda>k v. ValidString k \<and> ValidString v) mp)"

text \<open>The error of \<^verbatim>\<open>MemStorage.Get\<close> on a key that is not there.\<close>

definition ErrNotFound :: error where
  "ErrNotFound = fmt_Errorf ''err not found'' None"

text \<open>A \<^verbatim>\<open>Set\<close> whose three system calls succeed.\<close>

definition io_ok :: set_io where
  "io_ok = \<lparr>truncate_fails = None, seek_fails = None, write_fails = None\<rparr>"

section \<open>JSON texts\<close>

text \<open>
  The texts the claims speak of, written after the grammar of JSON (RFC 8259) and not
  after the decoder: white space, the characters of a string between its quotes, a string,
  an object member whose value is a string or \<^verbatim>\<open>null\<close>, and an object of such members.
  The bytes of a string need not be valid UTF-8.
\<close>

definition json_ws :: "string \<Rightarrow> bool" where
  "json_ws w = list_all isSpace w"

inductive json_chars :: "string \<Rightarrow> bool" where
  json_chars_Nil: "json_chars []"
| json_chars_plain:
    "c \<noteq> dqt \<Longrightarrow> c \<noteq> bsl \<Longrightarrow> \<not> (of_char c :: nat) < 0x20 \<Longrightarrow> json_chars t
     \<Longrightarrow> json_chars (c # t)"
| json_chars_escape:
    "e \<in> set [CHR ''b'', CHR ''f'', CHR ''n'', CHR ''r'', CHR ''t'', bsl, CHR ''/'', dqt]
     \<Longrightarrow> json_chars t \<Longrightarrow> json_chars (bsl # e # t)"
| json_chars_unicode:
    "isHex h1 \<Longrightarrow> isHex h2 \<Longrightarrow> isHex h3 \<Longrightarrow> isHex h4 \<Longrightarrow> json_chars t
     \<Longrightarrow> json_chars (bsl # CHR ''u'' # h1 # h2 # h3 # h4 # t)"

definition json_string :: "string \<Rightarrow> bool" where
  "json_string s = (\<exists>cs. json_chars cs \<and> s = dqt # cs @ [dqt])"

definition json_member :: "string \<Rightarrow> bool" where
  "json_member s =
     (\<exists>k w1 w2 v. json_string k \<and> json_ws w1 \<and> json_ws w2 \<and> (json_string v \<or> v = ''null'')
        \<and> s = k @ w1 @ '':'' @ w2 @ v)"

inductive json_members :: "string \<Rightarrow> bool" where
  json_members_one: "json_member mt \<Longrightarrow> json_members mt"
| json_members_more:
    "json_member mt \<Longrightarrow> json_ws w1 \<Longrightarrow> json_ws w2 \<Longrightarrow> json_members rest
     \<Longrightarrow> json_members (mt @ w1 @ '','' @ w2 @ rest)"

definition json_object :: "string \<Rightarrow> bool" where
  "json_object s =
     ((\<exists>w. json_ws w \<and> s = ''{'' @ w @ ''}'')
      \<or> (\<exists>w1 mts w2. json_ws w1 \<and> json_members mts \<and> json_ws w2 \<and> s = ''{'' @ w1 @ mts @ w2 @ ''}''))"

text \<open>
  A content whose first JSON value, after white space, is \<^verbatim>\<open>null\<close> or such an object;
  what follows that value is free.
\<close>

definition begins_with_null_or_object :: "string \<Rightarrow> bool" where
  "begins_with_null_or_object c =
     (\<exists>w v rest. json_ws w \<and> (v = ''null'' \<or> json_object v) \<and> c = w @ v @ rest)"












section \<open>Well-formed UTF-8 byte sequences\<close>

text \<open>
  The well-formed sequences of two, three and four bytes (the table of the Unicode
  standard that \<^verbatim>\<open>unicode/utf8\<close> implements), used to reason about
  \<^const>\<open>DecodeRuneInString\<close> and \<^const>\<open>EncodeRune\<close>.
\<close>

definition seq2 :: "char \<Rightarrow> char \<Rightarrow> bool" where
  "seq2 c0 c1 = (0xC2 \<le> (of_char c0 :: nat) \<and> (of_char c0 :: nat) \<le> 0xDF
     \<and> 0x80 \<le> (of_char c1 :: nat) \<and> (of_char c1 :: nat) \<le> 0xBF)"

definition seq3 :: "char \<Rightarrow> char \<Rightarrow> char \<Rightarrow> bool" where
  "seq3 c0 c1 c2 = (0xE0 \<le> (of_char c0 :: nat) \<and> (of_char c0 :: nat) \<le> 0xEF
     \<and> (if (of_char c0 :: nat) = 0xE0 then 0xA0 else 0x80) \<le> (of_char c1 :: nat)
     \<and> (of_char c1 :: nat) \<le> (if (of_char c0 :: nat) = 0xED then 0x9F else 0xBF)
     \<and> 0x80 \<le> (of_char c2 :: nat) \<and> (of_char c2 :: nat) \<le> 0xBF)"

definition seq4 :: "char \<Rightarrow> char \<Rightarrow> char \<Rightarrow> char \<Rightarrow> bool" where
  "seq4 c0 c1 c2 c3 = (0xF0 \<le> (of_char c0 :: nat) \<and> (of_char c0 :: nat) \<le> 0xF4
     \<and> (if (of_char c0 :: nat) = 0xF0 then 0x90 else 0x80) \<le> (of_char c1 :: nat)
     \<and> (of_char c1 :: nat) \<le> (if (of_char c0 :: nat) = 0xF4 then 0x8F else 0xBF)
     \<and> 0x80 \<le> (of_char c2 :: nat) \<and> (of_char c2 :: nat) \<le> 0xBF
     \<and> 0x80 \<le> (of_char c3 :: nat) \<and> (of_char c3 :: nat) \<le> 0xBF)"


definition wf_seq :: "string \<Rightarrow> bool" where
  "wf_seq bs =
     (case bs of
        [c0] \<Rightarrow> (of_char c0 :: nat) < 0x80
      | [c0, c1] \<Rightarrow> seq2 c0 c1
      | [c0, c1, c2] \<Rightarrow> seq3 c0 c1 c2
      | [c0, c1, c2, c3] \<Rightarrow> seq4 c0 c1 c2 c3
      | _ \<Rightarrow> False)"

section \<open>\<^const>\<open>DecodeRuneInString\<close> and \<^const>\<open>EncodeRune\<close> are inverse on well-formed sequences\<close>

lemma DecodeRune_ascii:
  "(of_char c0 :: nat) < 0x80 \<Longrightarrow> DecodeRuneInString (c0 # t) = (int (of_char c0), 1)"
  by (simp add: DecodeRuneInString_def RuneSelf_def)

lemma DecodeRune_seq2:
  "seq2 c0 c1 \<Longrightarrow> DecodeRuneInString (c0 # c1 # t) =
     (int ((of_char c0 mod 32) * 64 + of_char c1 mod 64), 2)"
  by (simp add: DecodeRuneInString_def RuneSelf_def seq2_def utf8_first_def Let_def)

lemma DecodeRune_seq3:
  "seq3 c0 c1 c2 \<Longrightarrow> DecodeRuneInString (c0 # c1 # c2 # t) =
     (int ((of_char c0 mod 16) * 4096 + (of_char c1 mod 64) * 64 + of_char c2 mod 64), 3)"
  by (auto simp add: DecodeRuneInString_def RuneSelf_def seq3_def utf8_first_def Let_def split: if_splits)

lemma DecodeRune_seq4:
  "seq4 c0 c1 c2 c3 \<Longrightarrow> DecodeRuneInString (c0 # c1 # c2 # c3 # t) =
     (int ((of_char c0 mod 8) * 262144 + (of_char c1 mod 64) * 4096
           + (of_char c2 mod 64) * 64 + of_char c3 mod 64), 4)"
  by (auto simp add: DecodeRuneInString_def RuneSelf_def seq4_def utf8_first_def Let_def split: if_splits)

lemma DecodeRune_shape:
  assumes "DecodeRuneInString (c0 # t0) = (c, w)" and "\<not> (c = RuneError \<and> w = 1)"
    and "\<not> (of_char c0 :: nat) < 0x80"
  shows "(\<exists>c1 t. t0 = c1 # t \<and> seq2 c0 c1) \<or> (\<exists>c1 c2 t. t0 = c1 # c2 # t \<and> seq3 c0 c1 c2)
     \<or> (\<exists>c1 c2 c3 t. t0 = c1 # c2 # c3 # t \<and> seq4 c0 c1 c2 c3)"
proof (cases t0)
  case Nil
  with assms show ?thesis
    by (auto simp: DecodeRuneInString_def RuneSelf_def Let_def utf8_first_def split: if_splits)
next
  case c1: (Cons c1 t1)
  show ?thesis
  proof (cases t1)
    case Nil
    with assms c1 show ?thesis
      by (auto simp: DecodeRuneInString_def RuneSelf_def Let_def utf8_first_def seq2_def split: if_splits)
  next
    case c2: (Cons c2 t2)
    show ?thesis
    proof (cases t2)
      case Nil
      with assms c1 c2 show ?thesis
        by (auto simp: DecodeRuneInString_def RuneSelf_def Let_def utf8_first_def seq2_def seq3_def split: if_splits)
    next
      case c3: (Cons c3 t3)
      with assms c1 c2 show ?thesis
        by (auto simp: DecodeRuneInString_def RuneSelf_def Let_def utf8_first_def seq2_def seq3_def seq4_def split: if_splits)
    qed
  qed
qed

lemma m32: "h < 32 \<Longrightarrow> (192 + h) mod 32 = (h::nat)"
  using mod_mult_self4 [of 32 6 h] by simp

lemma m64: "l < 64 \<Longrightarrow> (128 + l) mod 64 = (l::nat)"
  using mod_mult_self4 [of 64 2 l] by simp

lemma m16: "h < 16 \<Longrightarrow> (224 + h) mod 16 = (h::nat)"
  using mod_mult_self4 [of 16 14 h] by simp

lemma m8: "h < 8 \<Longrightarrow> (240 + h) mod 8 = (h::nat)"
  using mod_mult_self4 [of 8 30 h] by simp

lemma dm64:
  fixes x c :: nat
  assumes "c < 64"
  shows "(x * 64 + c) div 64 = x" and "(x * 64 + c) mod 64 = c"
  using assms by simp_all

lemma enc3_arith:
  fixes a b c :: nat
  assumes "b < 64" "c < 64"
  shows "(a * 4096 + b * 64 + c) div 4096 = a"
    and "(a * 4096 + b * 64 + c) div 64 mod 64 = b"
    and "(a * 4096 + b * 64 + c) mod 64 = c"
proof -
  have e: "a * 4096 + b * 64 + c = (a * 64 + b) * 64 + c"
    by simp
  have d: "(a * 4096 + b * 64 + c) div 64 = a * 64 + b"
    unfolding e using assms(2) by (rule dm64)
  show "(a * 4096 + b * 64 + c) div 64 mod 64 = b"
    unfolding d using assms(1) by (rule dm64)
  show "(a * 4096 + b * 64 + c) mod 64 = c"
    unfolding e using assms(2) by (rule dm64)
  have "(a * 4096 + b * 64 + c) div 4096 = (a * 4096 + b * 64 + c) div 64 div 64"
    by (simp add: div_mult2_eq [symmetric])
  also have "\<dots> = a"
    unfolding d using assms(1) by (rule dm64)
  finally show "(a * 4096 + b * 64 + c) div 4096 = a" .
qed

lemma enc4_arith:
  fixes a b c d :: nat
  assumes "b < 64" "c < 64" "d < 64"
  shows "(a * 262144 + b * 4096 + c * 64 + d) div 262144 = a"
    and "(a * 262144 + b * 4096 + c * 64 + d) div 4096 mod 64 = b"
    and "(a * 262144 + b * 4096 + c * 64 + d) div 64 mod 64 = c"
    and "(a * 262144 + b * 4096 + c * 64 + d) mod 64 = d"
proof -
  let ?r = "a * 262144 + b * 4096 + c * 64 + d"
  have e: "?r = ((a * 64 + b) * 64 + c) * 64 + d"
    by simp
  have d1: "?r div 64 = (a * 64 + b) * 64 + c"
    unfolding e using assms(3) by (rule dm64)
  have d2: "?r div 4096 = a * 64 + b"
  proof -
    have "?r div 4096 = ?r div 64 div 64"
      by (simp add: div_mult2_eq [symmetric])
    also have "\<dots> = a * 64 + b"
      unfolding d1 using assms(2) by (rule dm64)
    finally show ?thesis .
  qed
  show "?r mod 64 = d"
    unfolding e using assms(3) by (rule dm64)
  show "?r div 64 mod 64 = c"
    unfolding d1 using assms(2) by (rule dm64)
  show "?r div 4096 mod 64 = b"
    unfolding d2 using assms(1) by (rule dm64)
  have "?r div 262144 = ?r div 4096 div 64"
    by (simp add: div_mult2_eq [symmetric])
  also have "\<dots> = a"
    unfolding d2 using assms(1) by (rule dm64)
  finally show "?r div 262144 = a" .
qed


lemma uint32_int: "n < 2 ^ 32 \<Longrightarrow> nat (int n mod 2 ^ 32) = n"
  by simp

lemma EncodeRune_ascii:
  "(of_char c0 :: nat) < 0x80 \<Longrightarrow> EncodeRune (int (of_char c0)) = [c0]"
proof -
  assume a: "(of_char c0 :: nat) < 0x80"
  then have "nat (int (of_char c0) mod 2 ^ 32) = of_char c0"
    by (intro uint32_int) simp
  with a show ?thesis
    unfolding EncodeRune_def by (simp add: Let_def)
qed


lemma EncodeRune_seq2:
  assumes "seq2 c0 c1"
  shows "EncodeRune (int ((of_char c0 mod 32) * 64 + of_char c1 mod 64)) = [c0, c1]"
proof -
  define h where "h = (of_char c0 :: nat) - 192"
  define l where "l = (of_char c1 :: nat) - 128"
  have h: "(of_char c0 :: nat) = 192 + h" "h < 32" "2 \<le> h"
    and l: "(of_char c1 :: nat) = 128 + l" "l < 64"
    using assms unfolding h_def l_def seq2_def by linarith+
  have e: "(of_char c0 :: nat) mod 32 = h" "(of_char c1 :: nat) mod 64 = l"
    using h l m32 m64 by simp_all
  have "h * 64 + l < 2 ^ 32"
    using h l by simp
  note u = uint32_int [OF this]
  have "EncodeRune (int (h * 64 + l)) = [char_of (192 + h), char_of (128 + l)]"
    unfolding EncodeRune_def u using h(2,3) l(2) by (simp add: Let_def)
  then show ?thesis
    unfolding e by (simp add: h(1) [symmetric] l(1) [symmetric])
qed

lemma EncodeRune_seq3:
  assumes "seq3 c0 c1 c2"
  shows "EncodeRune (int ((of_char c0 mod 16) * 4096 + (of_char c1 mod 64) * 64 + of_char c2 mod 64))
         = [c0, c1, c2]"
proof -
  define a where "a = (of_char c0 :: nat) - 224"
  define b where "b = (of_char c1 :: nat) - 128"
  define c where "c = (of_char c2 :: nat) - 128"
  have a: "(of_char c0 :: nat) = 224 + a" "a < 16"
    and b: "(of_char c1 :: nat) = 128 + b" "b < 64"
    and c: "(of_char c2 :: nat) = 128 + c" "c < 64"
    using assms unfolding a_def b_def c_def seq3_def by (auto split: if_splits)
  have lo: "a = 0 \<Longrightarrow> 32 \<le> b" and hi: "a = 13 \<Longrightarrow> b < 32"
    using assms a(1) b(1) unfolding seq3_def by (auto split: if_splits)
  have e: "(of_char c0 :: nat) mod 16 = a" "(of_char c1 :: nat) mod 64 = b"
    "(of_char c2 :: nat) mod 64 = c"
    using a b c m16 m64 by simp_all
  let ?r = "a * 4096 + b * 64 + c"
  have r1: "2048 \<le> ?r"
    using lo b c by (cases "a = 0") simp_all
  have r2: "?r \<le> 0xFFFF"
    using a b c by simp
  have r3: "\<not> (0xD800 \<le> ?r \<and> ?r \<le> 0xDFFF)"
  proof (cases "a = 13")
    case True
    with hi b c show ?thesis by simp
  next
    case False
    then have "a \<le> 12 \<or> 14 \<le> a" by linarith
    with b c show ?thesis by auto
  qed
  have "?r < 2 ^ 32"
    using r2 by simp
  note u = uint32_int [OF this]
  have "EncodeRune (int ?r) = [char_of (224 + ?r div 4096), char_of (128 + ?r div 64 mod 64),
          char_of (128 + ?r mod 64)]"
    unfolding EncodeRune_def u using r1 r2 r3 by (auto simp add: Let_def)
  also have "\<dots> = [char_of (224 + a), char_of (128 + b), char_of (128 + c)]"
    unfolding enc3_arith [OF b(2) c(2)] ..
  finally show ?thesis
    unfolding e by (simp add: a(1) [symmetric] b(1) [symmetric] c(1) [symmetric])
qed


lemma EncodeRune_seq4:
  assumes "seq4 c0 c1 c2 c3"
  shows "EncodeRune (int ((of_char c0 mod 8) * 262144 + (of_char c1 mod 64) * 4096
           + (of_char c2 mod 64) * 64 + of_char c3 mod 64)) = [c0, c1, c2, c3]"
proof -
  define a where "a = (of_char c0 :: nat) - 240"
  define b where "b = (of_char c1 :: nat) - 128"
  define c where "c = (of_char c2 :: nat) - 128"
  define d where "d = (of_char c3 :: nat) - 128"
  have a: "(of_char c0 :: nat) = 240 + a" "a < 5"
    and b: "(of_char c1 :: nat) = 128 + b" "b < 64"
    and c: "(of_char c2 :: nat) = 128 + c" "c < 64"
    and d: "(of_char c3 :: nat) = 128 + d" "d < 64"
    using assms unfolding a_def b_def c_def d_def seq4_def by (auto split: if_splits)
  have lo: "a = 0 \<Longrightarrow> 16 \<le> b" and hi: "a = 4 \<Longrightarrow> b < 16"
    using assms a(1) b(1) unfolding seq4_def by (auto split: if_splits)
  have e: "(of_char c0 :: nat) mod 8 = a" "(of_char c1 :: nat) mod 64 = b"
    "(of_char c2 :: nat) mod 64 = c" "(of_char c3 :: nat) mod 64 = d"
    using a b c d m8 m64 by simp_all
  let ?r = "a * 262144 + b * 4096 + c * 64 + d"
  have r1: "0x10000 \<le> ?r"
    using lo b c by (cases "a = 0") simp_all
  have r2: "?r \<le> 0x10FFFF"
  proof (cases "a = 4")
    case True
    with hi b c d show ?thesis by simp
  next
    case False
    with a have "a \<le> 3" by simp
    with b c d show ?thesis by simp
  qed
  have "?r < 2 ^ 32"
    using r2 by simp
  note u = uint32_int [OF this]
  have "EncodeRune (int ?r) = [char_of (240 + ?r div 262144), char_of (128 + ?r div 4096 mod 64),
          char_of (128 + ?r div 64 mod 64), char_of (128 + ?r mod 64)]"
    unfolding EncodeRune_def u using r1 r2 by (auto simp add: Let_def)
  also have "\<dots> = [char_of (240 + a), char_of (128 + b), char_of (128 + c), char_of (128 + d)]"
    unfolding enc4_arith [OF b(2) c(2) d(2)] ..
  finally show ?thesis
    unfolding e by (simp add: a(1) [symmetric] b(1) [symmetric] c(1) [symmetric] d(1) [symmetric])
qed

lemma of_char_char_of_nat: "n < 256 \<Longrightarrow> (of_char (char_of (n::nat)) :: nat) = n"
  by simp

lemma div64_bounds:
  fixes n :: nat
  shows "n mod 64 < 64" "128 + n mod 64 < 256" "128 \<le> 128 + n mod 64" "128 + n mod 64 \<le> 191"
  by simp_all

lemma wf_seq_EncodeRune_1: "n \<le> 0x7F \<Longrightarrow> wf_seq [char_of (n::nat)]"
  by (simp add: wf_seq_def)

lemma wf_seq_EncodeRune_2:
  assumes "\<not> n \<le> 0x7F" "n \<le> 0x7FF"
  shows "wf_seq [char_of (0xC0 + n div 64), char_of (0x80 + n mod 64 :: nat)]"
proof -
  have "n div 64 \<le> 31" "2 \<le> n div 64"
    using assms by simp_all
  then show ?thesis
    by (simp add: wf_seq_def seq2_def)
qed


lemma split3:
  fixes n :: nat
  shows "(n div 4096) * 4096 + (n div 64 mod 64) * 64 + n mod 64 = n"
proof -
  define q where "q = n div 64"
  have 3: "n div 4096 = q div 64"
    by (simp add: q_def div_mult2_eq [symmetric])
  have "(n div 4096) * 4096 + (n div 64 mod 64) * 64 + n mod 64
        = ((q div 64) * 64 + q mod 64) * 64 + n mod 64"
    unfolding 3 q_def [symmetric] by (simp only: distrib_right mult.assoc)
  also have "\<dots> = q * 64 + n mod 64"
    by simp
  also have "\<dots> = n"
    by (simp add: q_def)
  finally show ?thesis .
qed

lemma split4:
  fixes n :: nat
  shows "(n div 262144) * 262144 + (n div 4096 mod 64) * 4096 + (n div 64 mod 64) * 64 + n mod 64 = n"
proof -
  define q where "q = n div 64"
  have 3: "n div 262144 = q div 4096" "n div 4096 = q div 64"
    by (simp_all add: q_def div_mult2_eq [symmetric])
  have "(n div 262144) * 262144 + (n div 4096 mod 64) * 4096 + (n div 64 mod 64) * 64 + n mod 64
        = ((q div 4096) * 4096 + (q div 64 mod 64) * 64 + q mod 64) * 64 + n mod 64"
    unfolding 3 q_def [symmetric] by (simp only: distrib_right mult.assoc)
  also have "\<dots> = q * 64 + n mod 64"
    unfolding split3 ..
  also have "\<dots> = n"
    by (simp add: q_def)
  finally show ?thesis .
qed

lemma wf_seq_EncodeRune_3:
  fixes n :: nat
  assumes "\<not> n \<le> 0x7FF" "n \<le> 0xFFFF" "\<not> (0xD800 \<le> n \<and> n \<le> 0xDFFF)"
  shows "wf_seq [char_of (0xE0 + n div 4096), char_of (0x80 + n div 64 mod 64),
                 char_of (0x80 + n mod 64)]"
proof -
  define a where "a = n div 4096"
  define b where "b = n div 64 mod 64"
  define c where "c = n mod 64"
  have n: "n = a * 4096 + b * 64 + c"
    unfolding a_def b_def c_def by (rule split3 [symmetric])
  have bc: "b < 64" "c < 64"
    by (simp_all add: b_def c_def)
  have a: "a < 16"
    using assms(2) n bc by linarith
  have lo: "a = 0 \<Longrightarrow> 32 \<le> b"
    using assms(1) n bc by linarith
  have hi: "a = 13 \<Longrightarrow> b < 32"
    using assms(3) n bc by linarith
  have "seq3 (char_of (0xE0 + a)) (char_of (0x80 + b)) (char_of (0x80 + c))"
    using a bc lo hi by (auto simp add: seq3_def)
  then show ?thesis
    by (simp add: wf_seq_def a_def b_def c_def)
qed

lemma wf_seq_EncodeRune_4:
  fixes n :: nat
  assumes "\<not> n \<le> 0xFFFF" "n \<le> 0x10FFFF"
  shows "wf_seq [char_of (0xF0 + n div 262144), char_of (0x80 + n div 4096 mod 64),
                 char_of (0x80 + n div 64 mod 64), char_of (0x80 + n mod 64)]"
proof -
  define a where "a = n div 262144"
  define b where "b = n div 4096 mod 64"
  define c where "c = n div 64 mod 64"
  define d where "d = n mod 64"
  have n: "n = a * 262144 + b * 4096 + c * 64 + d"
    unfolding a_def b_def c_def d_def by (rule split4 [symmetric])
  have bc: "b < 64" "c < 64" "d < 64"
    by (simp_all add: b_def c_def d_def)
  have a: "a < 5"
    using assms(2) n bc by linarith
  have lo: "a = 0 \<Longrightarrow> 16 \<le> b"
    using assms(1) n bc by linarith
  have hi: "a = 4 \<Longrightarrow> b < 16"
    using assms(2) n bc by linarith
  have "seq4 (char_of (0xF0 + a)) (char_of (0x80 + b)) (char_of (0x80 + c)) (char_of (0x80 + d))"
    using a bc lo hi by (auto simp add: seq4_def)
  then show ?thesis
    by (simp add: wf_seq_def a_def b_def c_def d_def)
qed

lemma wf_seq_EncodeRune: "wf_seq (EncodeRune r)"
proof -
  define i where "i = nat (r mod 2 ^ 32)"
  define i' where "i' = (if 0x10FFFF < i \<or> (0xD800 \<le> i \<and> i \<le> 0xDFFF) then nat RuneError else i)"
  have i': "i' \<le> 0x10FFFF" "\<not> (0xD800 \<le> i' \<and> i' \<le> 0xDFFF)" "\<not> i \<le> 0x7FF \<Longrightarrow> \<not> i' \<le> 0x7FF"
    by (auto simp: i'_def RuneError_def)
  show ?thesis
  proof (cases "i \<le> 0x7F")
    case True
    then show ?thesis
      unfolding EncodeRune_def i_def [symmetric] by (simp add: wf_seq_EncodeRune_1)
  next
    case n1: False
    show ?thesis
    proof (cases "i \<le> 0x7FF")
      case True
      with n1 show ?thesis
        unfolding EncodeRune_def i_def [symmetric]
        using wf_seq_EncodeRune_2 [of i] by simp
    next
      case n2: False
      show ?thesis
      proof (cases "i' \<le> 0xFFFF")
        case True
        with n1 n2 i' show ?thesis
          unfolding EncodeRune_def i_def [symmetric] Let_def i'_def [symmetric]
          using wf_seq_EncodeRune_3 [of i'] by simp
      next
        case False
        with n1 n2 i' show ?thesis
          unfolding EncodeRune_def i_def [symmetric] Let_def i'_def [symmetric]
          using wf_seq_EncodeRune_4 [of i'] by simp
      qed
    qed
  qed
qed

section \<open>Decoding one rune\<close>

lemma wf_seq_cases:
  assumes "wf_seq bs"
  obtains (one) c0 where "bs = [c0]" "(of_char c0 :: nat) < 0x80"
  | (two) c0 c1 where "bs = [c0, c1]" "seq2 c0 c1"
  | (three) c0 c1 c2 where "bs = [c0, c1, c2]" "seq3 c0 c1 c2"
  | (four) c0 c1 c2 c3 where "bs = [c0, c1, c2, c3]" "seq4 c0 c1 c2 c3"
  using assms unfolding wf_seq_def by (auto split: list.splits)

lemma DecodeRune_wf_seq_all:
  assumes "wf_seq bs"
  shows "DecodeRuneInString (bs @ t) = DecodeRuneInString bs \<and>
    snd (DecodeRuneInString bs) = length bs \<and>
    DecodeRuneInString bs \<noteq> (RuneError, 1) \<and> EncodeRune (fst (DecodeRuneInString bs)) = bs"
  using assms
proof (cases rule: wf_seq_cases)
  case (one c0)
  then show ?thesis
    by (simp add: DecodeRune_ascii EncodeRune_ascii RuneError_def)
next
  case (two c0 c1)
  then show ?thesis
    by (simp add: DecodeRune_seq2 EncodeRune_seq2 del: of_nat_add of_nat_mult)
next
  case (three c0 c1 c2)
  then show ?thesis
    by (simp add: DecodeRune_seq3 EncodeRune_seq3 del: of_nat_add of_nat_mult)
next
  case (four c0 c1 c2 c3)
  then show ?thesis
    by (simp add: DecodeRune_seq4 EncodeRune_seq4 del: of_nat_add of_nat_mult)
qed

lemma DecodeRune_wf_seq:
  assumes "wf_seq bs"
  shows "DecodeRuneInString (bs @ t) = DecodeRuneInString bs"
    and "snd (DecodeRuneInString bs) = length bs"
    and "DecodeRuneInString bs \<noteq> (RuneError, 1)"
    and "EncodeRune (fst (DecodeRuneInString bs)) = bs"
  using DecodeRune_wf_seq_all [OF assms] by simp_all

lemma DecodeRune_valid:
  assumes "DecodeRuneInString s = (c, w)" and "\<not> (c = RuneError \<and> w = 1)" and "s \<noteq> []"
  shows "w \<le> length s \<and> wf_seq (take w s)"
proof -
  from assms(3) obtain c0 t0 where s: "s = c0 # t0"
    by (cases s) auto
  show ?thesis
  proof (cases "(of_char c0 :: nat) < 0x80")
    case True
    with assms(1) s show ?thesis
      by (auto simp add: DecodeRune_ascii wf_seq_def)
  next
    case False
    from DecodeRune_shape [OF assms(1) [unfolded s] assms(2) False]
    consider (two) c1 t where "t0 = c1 # t" "seq2 c0 c1"
      | (three) c1 c2 t where "t0 = c1 # c2 # t" "seq3 c0 c1 c2"
      | (four) c1 c2 c3 t where "t0 = c1 # c2 # c3 # t" "seq4 c0 c1 c2 c3"
      by blast
    then show ?thesis
    proof cases
      case two
      with assms(1) s show ?thesis
        by (simp add: DecodeRune_seq2 wf_seq_def del: of_nat_add of_nat_mult)
    next
      case three
      with assms(1) s show ?thesis
        by (simp add: DecodeRune_seq3 wf_seq_def del: of_nat_add of_nat_mult)
    next
      case four
      with assms(1) s show ?thesis
        by (simp add: DecodeRune_seq4 wf_seq_def del: of_nat_add of_nat_mult)
    qed
  qed
qed

lemma DecodeRune_valid_prefix:
  assumes "DecodeRuneInString s = (c, w)" and "\<not> (c = RuneError \<and> w = 1)" and "s \<noteq> []"
  shows "DecodeRuneInString (take w s @ t) = (c, w)" and "EncodeRune c = take w s"
proof -
  from DecodeRune_valid [OF assms] have 1: "w \<le> length s" "wf_seq (take w s)"
    by simp_all
  from DecodeRune_wf_seq(1) [OF 1(2), of "drop w s"] assms(1)
  have 2: "DecodeRuneInString (take w s) = (c, w)"
    by simp
  with DecodeRune_wf_seq(1) [OF 1(2), of t] show "DecodeRuneInString (take w s @ t) = (c, w)"
    by simp
  from DecodeRune_wf_seq(4) [OF 1(2)] 2 show "EncodeRune c = take w s"
    by simp
qed

lemma DecodeRune_take: "DecodeRuneInString (take UTFMax s) = DecodeRuneInString s"
proof (cases "s = []")
  case True
  then show ?thesis by simp
next
  case ne: False
  obtain c w where cw: "DecodeRuneInString s = (c, w)"
    by (cases "DecodeRuneInString s")
  show ?thesis
  proof (cases "c = RuneError \<and> w = 1")
    case False
    from DecodeRune_valid [OF cw False ne] DecodeRuneInString_width [OF ne] cw
    have w: "w \<le> length s" "w \<le> 4"
      by simp_all
    then have "take UTFMax s = take w s @ take (4 - w) (drop w s)"
      by (metis UTFMax_def le_add_diff_inverse take_add)
    with DecodeRune_valid_prefix(1) [OF cw False ne] cw show ?thesis
      by simp
  next
    case True
    obtain c' w' where cw': "DecodeRuneInString (take UTFMax s) = (c', w')"
      by (cases "DecodeRuneInString (take UTFMax s)")
    have ne': "take UTFMax s \<noteq> []"
      using ne by (simp add: UTFMax_def)
    show ?thesis
    proof (cases "c' = RuneError \<and> w' = 1")
      case True
      with cw cw' \<open>c = RuneError \<and> w = 1\<close> show ?thesis by simp
    next
      case False
      from DecodeRuneInString_width [OF ne'] cw' have "w' \<le> 4"
        by simp
      then have "take w' (take UTFMax s) = take w' s"
        by (simp add: min_def UTFMax_def)
      with DecodeRune_valid_prefix(1) [OF cw' False ne', of "drop w' s"] cw
      show ?thesis
        using cw' by simp
    qed
  qed
qed


section \<open>\<^const>\<open>ValidString\<close>\<close>

lemma wf_seq_not_Nil: "wf_seq bs \<Longrightarrow> bs \<noteq> []"
  by (auto simp: wf_seq_def)

lemma ValidString_wf_seq_append:
  assumes "wf_seq bs"
  shows "ValidString (bs @ t) = ValidString t"
proof -
  from wf_seq_not_Nil [OF assms] obtain b bs' where bs: "bs = b # bs'"
    by (cases bs) auto
  obtain c w where cw: "DecodeRuneInString bs = (c, w)"
    by (cases "DecodeRuneInString bs")
  from DecodeRune_wf_seq_all [OF assms, of t] cw
  have "DecodeRuneInString (bs @ t) = (c, w)" "w = length bs" "(c, w) \<noteq> (RuneError, 1)"
    by auto
  then show ?thesis
    unfolding bs by simp
qed

lemma ValidString_append:
  "ValidString a \<Longrightarrow> ValidString (a @ b) = ValidString b"
proof (induction a rule: ValidString.induct)
  case 1
  then show ?case by simp
next
  case (2 c s)
  obtain r w where rw: "DecodeRuneInString (c # s) = (r, w)"
    by (cases "DecodeRuneInString (c # s)")
  with "2.prems" have nv: "\<not> (r = RuneError \<and> w = 1)" and v: "ValidString (drop w (c # s))"
    by simp_all
  from DecodeRune_valid [OF rw nv] have wf: "wf_seq (take w (c # s))"
    by simp
  have "ValidString ((c # s) @ b) = ValidString (take w (c # s) @ (drop w (c # s) @ b))"
    by (metis append_assoc append_take_drop_id)
  also have "\<dots> = ValidString (drop w (c # s) @ b)"
    by (rule ValidString_wf_seq_append [OF wf])
  also have "\<dots> = ValidString b"
    using "2.IH" [OF rw [symmetric] v] .
  finally show ?case .
qed

lemma ValidString_ascii: "(of_char c :: nat) < 0x80 \<Longrightarrow> ValidString (c # t) = ValidString t"
  using ValidString_wf_seq_append [of "[c]" t] by (simp add: wf_seq_def)

lemma ValidString_EncodeRune: "ValidString (EncodeRune r @ t) = ValidString t"
  by (rule ValidString_wf_seq_append [OF wf_seq_EncodeRune])

section \<open>Unquoting a string literal\<close>

lemma unquote_loop_plain:
  assumes "c \<noteq> bsl" "c \<noteq> dqt" "\<not> (of_char c :: nat) < 0x20" "(of_char c :: nat) < 0x80"
  shows "unquote_loop (c # s) = map_option ((#) c) (unquote_loop s)"
  using assms by (simp add: RuneSelf_def)

lemma unquote_loop_multi:
  assumes "\<not> (of_char c :: nat) < 0x80"
  shows "unquote_loop (c # s) =
    (case DecodeRuneInString (c # s) of
       (rr, w) \<Rightarrow> map_option ((@) (EncodeRune rr)) (unquote_loop (drop w (c # s))))"
proof -
  have "c \<noteq> bsl" "c \<noteq> dqt" "\<not> (of_char c :: nat) < 0x20"
    using assms by (auto simp: bsl_def dqt_def)
  with assms show ?thesis
    by (simp add: RuneSelf_def)
qed

lemma unquote_loop_esc:
  "unquote_loop (bsl # dqt # s) = map_option ((#) dqt) (unquote_loop s)"
  "unquote_loop (bsl # bsl # s) = map_option ((#) bsl) (unquote_loop s)"
  "unquote_loop (bsl # CHR ''b'' # s) = map_option ((#) (CHR 0x08)) (unquote_loop s)"
  "unquote_loop (bsl # CHR ''f'' # s) = map_option ((#) (CHR 0x0C)) (unquote_loop s)"
  "unquote_loop (bsl # CHR ''n'' # s) = map_option ((#) (CHR 0x0A)) (unquote_loop s)"
  "unquote_loop (bsl # CHR ''r'' # s) = map_option ((#) (CHR 0x0D)) (unquote_loop s)"
  "unquote_loop (bsl # CHR ''t'' # s) = map_option ((#) (CHR 0x09)) (unquote_loop s)"
  by (simp_all add: bsl_def dqt_def)

lemma unquote_loop_u:
  assumes "getu4 (bsl # CHR ''u'' # s) = rr" "0 \<le> rr" "\<not> IsSurrogate rr"
  shows "unquote_loop (bsl # CHR ''u'' # s) =
     map_option ((@) (EncodeRune rr)) (unquote_loop (drop 4 s))"
  using assms by (simp add: bsl_def dqt_def Let_def)

declare unquote_loop.simps(2) [simp del]
declare unquote_prefix.simps(2) [simp del]
declare appendString_loop.simps(2) [simp del]


lemma map_option_append_Nil: "map_option ((@) []) x = x"
  by (cases x) simp_all

lemma map_option_Cons_append:
  "map_option ((#) c) (map_option ((@) p) x) = map_option ((@) (c # p)) x"
  by (cases x) simp_all

lemma map_option_append_append:
  "map_option ((@) q) (map_option ((@) p) x) = map_option ((@) (q @ p)) x"
  by (cases x) simp_all

lemma unquote_loop_prefix:
  "unquote_loop t =
     map_option ((@) (take (unquote_prefix t) t)) (unquote_loop (drop (unquote_prefix t) t))"
proof (induction t rule: unquote_prefix.induct)
  case 1
  show ?case by simp
next
  case (2 c s)
  show ?case
  proof (cases "c = bsl \<or> c = dqt \<or> (of_char c :: nat) < 0x20")
    case True
    then have "unquote_prefix (c # s) = 0"
      by (simp add: unquote_prefix.simps)
    then show ?thesis
      by (simp add: option.map_ident)
  next
    case sp: False
    show ?thesis
    proof (cases "(of_char c :: nat) < RuneSelf")
      case True
      with sp have p: "unquote_prefix (c # s) = 1 + unquote_prefix s"
        by (simp add: unquote_prefix.simps)
      from sp True have "unquote_loop (c # s) = map_option ((#) c) (unquote_loop s)"
        by (intro unquote_loop_plain) (simp_all add: RuneSelf_def)
      also have "\<dots> = map_option ((#) c) (map_option ((@) (take (unquote_prefix s) s))
          (unquote_loop (drop (unquote_prefix s) s)))"
        using "2.IH"(1) [OF sp True] by simp
      also have "\<dots> = map_option ((@) (c # take (unquote_prefix s) s))
          (unquote_loop (drop (unquote_prefix s) s))"
        by (rule map_option_Cons_append)
      finally have "unquote_loop (c # s) = map_option ((@) (c # take (unquote_prefix s) s))
          (unquote_loop (drop (unquote_prefix s) s))" .
      moreover have "take (1 + unquote_prefix s) (c # s) = c # take (unquote_prefix s) s"
        "drop (1 + unquote_prefix s) (c # s) = drop (unquote_prefix s) s"
        by simp_all
      ultimately show ?thesis
        unfolding p by (simp only:)
    next
      case na: False
      obtain rr w where rw: "DecodeRuneInString (c # s) = (rr, w)"
        by (cases "DecodeRuneInString (c # s)")
      show ?thesis
      proof (cases "rr = RuneError \<and> w = 1")
        case True
        with sp na rw have "unquote_prefix (c # s) = 0"
          by (simp add: unquote_prefix.simps)
        then show ?thesis
          by (simp add: option.map_ident)
      next
        case False
        with sp na rw have p: "unquote_prefix (c # s) = w + unquote_prefix (drop w (c # s))"
          by (simp add: unquote_prefix.simps)
        from DecodeRune_valid_prefix(2) [OF rw False] have e: "EncodeRune rr = take w (c # s)"
          by simp
        from na rw have "unquote_loop (c # s)
            = map_option ((@) (EncodeRune rr)) (unquote_loop (drop w (c # s)))"
          by (simp add: unquote_loop_multi RuneSelf_def)
        also have "\<dots> = map_option ((@) (take w (c # s)))
            (map_option ((@) (take (unquote_prefix (drop w (c # s))) (drop w (c # s))))
              (unquote_loop (drop (unquote_prefix (drop w (c # s))) (drop w (c # s)))))"
          using "2.IH"(2) [OF sp na rw [symmetric] False] e by simp
        also have "\<dots> = map_option
            ((@) (take w (c # s) @ take (unquote_prefix (drop w (c # s))) (drop w (c # s))))
            (unquote_loop (drop (unquote_prefix (drop w (c # s))) (drop w (c # s))))"
          by (rule map_option_append_append)
        finally have "unquote_loop (c # s) = map_option
            ((@) (take w (c # s) @ take (unquote_prefix (drop w (c # s))) (drop w (c # s))))
            (unquote_loop (drop (unquote_prefix (drop w (c # s))) (drop w (c # s))))" .
        moreover have "take (w + unquote_prefix (drop w (c # s))) (c # s)
            = take w (c # s) @ take (unquote_prefix (drop w (c # s))) (drop w (c # s))"
          by (rule take_add)
        moreover have "drop (w + unquote_prefix (drop w (c # s))) (c # s)
            = drop (unquote_prefix (drop w (c # s))) (drop w (c # s))"
          by (simp add: add.commute)
        ultimately show ?thesis
          unfolding p by (simp only:)
      qed
    qed
  qed
qed

lemma unquoteBytes_unquote_loop: "unquoteBytes t = unquote_loop t"
proof (cases "unquote_prefix t = length t")
  case True
  have "unquote_loop t = map_option ((@) (take (length t) t)) (unquote_loop (drop (length t) t))"
    using unquote_loop_prefix [of t] unfolding True .
  then have "unquote_loop t = Some t"
    by simp
  with True show ?thesis
    by (simp add: unquoteBytes_def)
next
  case False
  then have "unquoteBytes t = map_option ((@) (take (unquote_prefix t) t))
      (unquote_loop (drop (unquote_prefix t) t))"
    by (simp add: unquoteBytes_def Let_def)
  then show ?thesis
    using unquote_loop_prefix [of t] by simp
qed


lemma ValidString_Cons_ascii [simp]:
  "(of_char c :: nat) < 0x80 \<Longrightarrow> ValidString (c # t) = ValidString t"
  by (rule ValidString_ascii)

lemma unquote_loop_esc_cases:
  assumes "e \<noteq> CHR ''u''"
  shows "unquote_loop (bsl # e # s') = None
     \<or> (\<exists>x. unquote_loop (bsl # e # s') = map_option ((#) x) (unquote_loop s')
            \<and> (of_char x :: nat) < 0x80)"
proof -
  have *: "A = map_option ((#) x) B \<Longrightarrow> (of_char x :: nat) < 0x80 \<Longrightarrow>
      A = None \<or> (\<exists>x. A = map_option ((#) x) B \<and> (of_char x :: nat) < 0x80)"
    for A B x
    by blast
  consider "e = dqt" | "e = bsl" | "e = CHR ''/''" | "e = CHR 0x27" | "e = CHR ''b''"
    | "e = CHR ''f''" | "e = CHR ''n''" | "e = CHR ''r''" | "e = CHR ''t''"
    | "e \<notin> {dqt, bsl, CHR ''/'', CHR 0x27, CHR ''b'', CHR ''f'', CHR ''n'', CHR ''r'', CHR ''t''}"
    by blast
  then show ?thesis
  proof cases
    case 1
    then show ?thesis
      by (intro * [of _ dqt]) (simp_all add: unquote_loop.simps(2) bsl_def dqt_def)
  next
    case 2
    then show ?thesis
      by (intro * [of _ bsl]) (simp_all add: unquote_loop.simps(2) bsl_def dqt_def)
  next
    case 3
    then show ?thesis
      by (intro * [of _ "CHR ''/''"]) (simp_all add: unquote_loop.simps(2) bsl_def dqt_def)
  next
    case 4
    then show ?thesis
      by (intro * [of _ "CHR 0x27"]) (simp_all add: unquote_loop.simps(2) bsl_def dqt_def)
  next
    case 5
    then show ?thesis
      by (intro * [of _ "CHR 0x08"]) (simp_all add: unquote_loop.simps(2) bsl_def dqt_def)
  next
    case 6
    then show ?thesis
      by (intro * [of _ "CHR 0x0C"]) (simp_all add: unquote_loop.simps(2) bsl_def dqt_def)
  next
    case 7
    then show ?thesis
      by (intro * [of _ "CHR 0x0A"]) (simp_all add: unquote_loop.simps(2) bsl_def dqt_def)
  next
    case 8
    then show ?thesis
      by (intro * [of _ "CHR 0x0D"]) (simp_all add: unquote_loop.simps(2) bsl_def dqt_def)
  next
    case 9
    then show ?thesis
      by (intro * [of _ "CHR 0x09"]) (simp_all add: unquote_loop.simps(2) bsl_def dqt_def)
  next
    case 10
    with assms show ?thesis
      by (simp add: unquote_loop.simps(2) bsl_def dqt_def)
  qed
qed

lemma unquote_loop_u_cases:
  "unquote_loop (bsl # CHR ''u'' # s') = None
   \<or> (\<exists>r n. 0 < n
          \<and> unquote_loop (bsl # CHR ''u'' # s')
              = map_option ((@) (EncodeRune r)) (unquote_loop (drop n (bsl # CHR ''u'' # s'))))"
proof -
  define rr where "rr = getu4 (bsl # CHR ''u'' # s')"
  define dec where "dec = utf16_DecodeRune rr (getu4 (drop 6 (bsl # CHR ''u'' # s')))"
  have eq: "unquote_loop (bsl # CHR ''u'' # s') =
    (if rr < 0 then None
     else if IsSurrogate rr then
       (if dec \<noteq> ReplacementChar then
          map_option ((@) (EncodeRune dec)) (unquote_loop (drop 12 (bsl # CHR ''u'' # s')))
        else map_option ((@) (EncodeRune ReplacementChar))
               (unquote_loop (drop 6 (bsl # CHR ''u'' # s'))))
     else map_option ((@) (EncodeRune rr)) (unquote_loop (drop 6 (bsl # CHR ''u'' # s'))))"
    unfolding rr_def dec_def by (simp add: unquote_loop.simps(2) bsl_def dqt_def Let_def)
  show ?thesis
  proof (cases "rr < 0")
    case True
    with eq show ?thesis by simp
  next
    case nn: False
    show ?thesis
    proof (cases "IsSurrogate rr")
      case False
      with nn eq have "unquote_loop (bsl # CHR ''u'' # s')
          = map_option ((@) (EncodeRune rr)) (unquote_loop (drop 6 (bsl # CHR ''u'' # s')))"
        by simp
      then show ?thesis
        by (intro disjI2 exI [of _ rr] exI [of _ 6]) simp
    next
      case sur: True
      show ?thesis
      proof (cases "dec \<noteq> ReplacementChar")
        case True
        with nn sur eq have "unquote_loop (bsl # CHR ''u'' # s')
            = map_option ((@) (EncodeRune dec)) (unquote_loop (drop 12 (bsl # CHR ''u'' # s')))"
          by simp
        then show ?thesis
          by (intro disjI2 exI [of _ dec] exI [of _ 12]) simp
      next
        case False
        with nn sur eq have "unquote_loop (bsl # CHR ''u'' # s')
            = map_option ((@) (EncodeRune ReplacementChar))
                (unquote_loop (drop 6 (bsl # CHR ''u'' # s')))"
          by simp
        then show ?thesis
          by (intro disjI2 exI [of _ ReplacementChar] exI [of _ 6]) simp
      qed
    qed
  qed
qed


lemma unquote_loop_valid:
  "unquote_loop t = Some u \<Longrightarrow> ValidString u"
proof (induction "length t" arbitrary: t u rule: less_induct)
  case less
  note IH = less.hyps
  show ?case
  proof (cases t)
    case Nil
    with less.prems show ?thesis by simp
  next
    case (Cons c s)
    have drop_less: "\<And>n. 0 < n \<Longrightarrow> length (drop n (c # s)) < length t"
      unfolding Cons by simp
    show ?thesis
    proof (cases "c = bsl")
      case True
      show ?thesis
      proof (cases s)
        case Nil
        with less.prems Cons True show ?thesis
          by (simp add: unquote_loop.simps(2))
      next
        case s: (Cons e s')
        have l1: "length s' < length t"
          unfolding Cons s by simp
        show ?thesis
        proof (cases "e = CHR ''u''")
          case False
          have p: "unquote_loop (bsl # e # s') = Some u"
            using less.prems Cons True s by simp
          with unquote_loop_esc_cases [OF False, of s'] obtain x where
            x: "unquote_loop (bsl # e # s') = map_option ((#) x) (unquote_loop s')"
              "(of_char x :: nat) < 0x80"
            by auto
          from x(1) [unfolded p] have "map_option ((#) x) (unquote_loop s') = Some u"
            by simp
          with x(2) obtain u' where "unquote_loop s' = Some u'" "u = x # u'" "(of_char x :: nat) < 0x80"
            by auto
          with IH [OF l1] show ?thesis
            by (simp add: ValidString_ascii del: ValidString.simps(2))
        next
          case u: True
          have p: "unquote_loop (bsl # CHR ''u'' # s') = Some u"
            using less.prems Cons True s u by simp
          with unquote_loop_u_cases [of s'] obtain r n where
            x: "unquote_loop (bsl # CHR ''u'' # s')
                = map_option ((@) (EncodeRune r)) (unquote_loop (drop n (bsl # CHR ''u'' # s')))"
              "0 < n"
            by auto
          from x(1) [unfolded p]
          have "map_option ((@) (EncodeRune r)) (unquote_loop (drop n (c # s))) = Some u"
            using True s u by simp
          with x(2) obtain u' where "unquote_loop (drop n (c # s)) = Some u'" "u = EncodeRune r @ u'"
            "0 < n"
            by auto
          with IH [OF drop_less] show ?thesis
            by (simp add: ValidString_EncodeRune)
        qed
      qed
    next
      case nb: False
      show ?thesis
      proof (cases "(of_char c :: nat) < RuneSelf")
        case True
        with less.prems Cons nb obtain u' where "unquote_loop s = Some u'" "u = c # u'"
          by (auto simp: unquote_loop.simps(2) split: if_splits)
        moreover have "length s < length t"
          unfolding Cons by simp
        ultimately show ?thesis
          using IH True by (simp add: RuneSelf_def ValidString_ascii del: ValidString.simps(2))
      next
        case False
        obtain r w where rw: "DecodeRuneInString (c # s) = (r, w)"
          by (cases "DecodeRuneInString (c # s)")
        from DecodeRuneInString_pos [OF rw [symmetric]] have "0 < w" .
        from False have "\<not> (of_char c :: nat) < 0x80"
          by (simp add: RuneSelf_def)
        from less.prems [unfolded Cons unquote_loop_multi [OF this] rw] obtain u' where
          "unquote_loop (drop w (c # s)) = Some u'" "u = EncodeRune r @ u'"
          by auto
        with IH [OF drop_less [OF \<open>0 < w\<close>]] show ?thesis
          by (simp add: ValidString_EncodeRune)
      qed
    qed
  qed
qed

section \<open>The encoder's string literals\<close>

lemma lt16_cases:
  fixes n :: nat
  assumes "n < 16"
  shows "n \<in> set [0, 1, 2, 3, 4, 5, 6, 7, 8, 9, 10, 11, 12, 13, 14, 15]"
proof -
  have "[0..<16] = [0, 1, 2, 3, 4, 5, 6, 7, 8, 9, 10, 11, 12, 13, 14, 15 :: nat]"
    by (simp add: upt_rec)
  with assms show ?thesis
    by (metis atLeastLessThan_iff atLeastLessThan_upt zero_le)
qed

lemma hex_values:
  "hex 0 = CHR ''0''" "hex 1 = CHR ''1''" "hex (Suc 0) = CHR ''1''" "hex 2 = CHR ''2''" "hex 3 = CHR ''3''"
  "hex 4 = CHR ''4''" "hex 5 = CHR ''5''" "hex 6 = CHR ''6''" "hex 7 = CHR ''7''"
  "hex 8 = CHR ''8''" "hex 9 = CHR ''9''" "hex 10 = CHR ''a''" "hex 11 = CHR ''b''"
  "hex 12 = CHR ''c''" "hex 13 = CHR ''d''" "hex 14 = CHR ''e''" "hex 15 = CHR ''f''"
  by (simp_all add: hex_def)

lemma hex_digit:
  assumes "n < 16"
  shows "isHex (hex n) \<and> (\<forall>cs r. getu4_digits (hex n # cs) r = getu4_digits cs (r * 16 + int n))"
  using lt16_cases [OF assms]
  by (simp only: set_simps insert_iff empty_iff) (elim disjE; simp add: hex_values isHex_def)

lemma getu4_u00:
  assumes "h < 16" "l < 16"
  shows "getu4 (bsl # CHR ''u'' # CHR ''0'' # CHR ''0'' # hex h # hex l # t) = int (h * 16 + l)"
proof -
  have z: "getu4_digits (CHR ''0'' # cs) r = getu4_digits cs (r * 16)" for cs r
    by simp
  have "getu4_digits [CHR ''0'', CHR ''0'', hex h, hex l] 0 = int (h * 16 + l)"
    using hex_digit [OF assms(1)] hex_digit [OF assms(2)] unfolding z by simp
  then show ?thesis
    by (simp add: getu4_def del: getu4_digits.simps)
qed

text \<open>A piece of a literal that the scanner passes over and keeps.\<close>

definition scans :: "string \<Rightarrow> bool" where
  "scans piece = (\<forall>t. stateInString (piece @ t)
      = map_option (\<lambda>(lit, rest). (piece @ lit, rest)) (stateInString t))"

lemma scansI:
  "(\<And>t. stateInString (piece @ t)
      = map_option (\<lambda>(lit, rest). (piece @ lit, rest)) (stateInString t)) \<Longrightarrow> scans piece"
  by (simp add: scans_def)

lemma scansD:
  "scans piece \<Longrightarrow> stateInString (piece @ t)
      = map_option (\<lambda>(lit, rest). (piece @ lit, rest)) (stateInString t)"
  by (simp add: scans_def)

lemma scans_Nil: "scans []"
  by (simp add: scans_def option.map_id)

lemma scans_append: "scans p \<Longrightarrow> scans q \<Longrightarrow> scans (p @ q)"
proof (rule scansI)
  fix t
  assume p: "scans p" and q: "scans q"
  show "stateInString ((p @ q) @ t)
      = map_option (\<lambda>(lit, rest). ((p @ q) @ lit, rest)) (stateInString t)"
    using scansD [OF p, of "q @ t"] scansD [OF q, of t]
    by (cases "stateInString t") auto
qed

lemma scans_plain:
  assumes "c \<noteq> dqt" "c \<noteq> bsl" "\<not> (of_char c :: nat) < 0x20"
  shows "scans [c]"
  using assms by (intro scansI) (simp add: stateInString.simps(2))

lemma scans_esc:
  assumes "e \<in> set [CHR ''b'', CHR ''f'', CHR ''n'', CHR ''r'', CHR ''t'', bsl, CHR ''/'', dqt]"
  shows "scans [bsl, e]"
proof (rule scansI)
  fix t
  have "bsl \<noteq> dqt"
    by (simp add: bsl_def dqt_def)
  with assms show "stateInString ([bsl, e] @ t)
      = map_option (\<lambda>(lit, rest). ([bsl, e] @ lit, rest)) (stateInString t)"
    by (simp add: stateInString.simps(2) del: set_simps)
qed

lemma scans_u:
  assumes "isHex h1" "isHex h2" "isHex h3" "isHex h4"
  shows "scans [bsl, CHR ''u'', h1, h2, h3, h4]"
proof (rule scansI)
  fix t
  have "bsl \<noteq> dqt"
    by (simp add: bsl_def dqt_def)
  moreover have "CHR ''u'' \<notin> set [CHR ''b'', CHR ''f'', CHR ''n'', CHR ''r'', CHR ''t'', bsl, CHR ''/'', dqt]"
    by (simp add: bsl_def dqt_def)
  ultimately show "stateInString ([bsl, CHR ''u'', h1, h2, h3, h4] @ t)
      = map_option (\<lambda>(lit, rest). ([bsl, CHR ''u'', h1, h2, h3, h4] @ lit, rest)) (stateInString t)"
    using assms by (simp add: stateInString.simps(2) del: set_simps)
qed


lemma scans_high:
  assumes "\<forall>c \<in> set bs. \<not> (of_char c :: nat) < 0x80"
  shows "scans bs"
  using assms
proof (induction bs)
  case Nil
  show ?case by (rule scans_Nil)
next
  case (Cons c bs)
  then have "\<not> (of_char c :: nat) < 0x80"
    by simp
  then have "c \<noteq> dqt" "c \<noteq> bsl" "\<not> (of_char c :: nat) < 0x20"
    by (auto simp: dqt_def bsl_def)
  then have "scans [c]"
    by (rule scans_plain)
  moreover from Cons have "scans bs"
    by simp
  ultimately have "scans ([c] @ bs)"
    by (rule scans_append)
  then show ?case
    by simp
qed

lemma wf_seq_high:
  assumes "wf_seq bs" and "\<not> (of_char (hd bs) :: nat) < 0x80"
  shows "\<forall>c \<in> set bs. \<not> (of_char c :: nat) < 0x80"
  using assms(1)
proof (cases rule: wf_seq_cases)
  case (one c0)
  with assms(2) show ?thesis by simp
next
  case (two c0 c1)
  then show ?thesis by (auto simp: seq2_def)
next
  case (three c0 c1 c2)
  then show ?thesis by (auto simp: seq3_def split: if_splits)
next
  case (four c0 c1 c2 c3)
  then show ?thesis by (auto simp: seq4_def split: if_splits)
qed

text \<open>The escape of an ASCII byte that is not written as it is.\<close>

lemma control_neq:
  "CHR 0x08 \<noteq> bsl" "CHR 0x08 \<noteq> dqt" "CHR 0x0C \<noteq> bsl" "CHR 0x0C \<noteq> dqt"
  "CHR 0x0A \<noteq> bsl" "CHR 0x0A \<noteq> dqt" "CHR 0x0D \<noteq> bsl" "CHR 0x0D \<noteq> dqt"
  "CHR 0x09 \<noteq> bsl" "CHR 0x09 \<noteq> dqt" "dqt \<noteq> bsl" "bsl \<noteq> dqt"
  by (simp_all add: bsl_def dqt_def)

lemma escape_byte_cases:
  assumes "(of_char b :: nat) < 0x80" "\<not> htmlSafeSet b"
  obtains (two) e where "escape_byte b = [bsl, e]"
      "e \<in> set [CHR ''b'', CHR ''f'', CHR ''n'', CHR ''r'', CHR ''t'', bsl, CHR ''/'', dqt]"
      "\<And>t. unquote_loop (bsl # e # t) = map_option ((#) b) (unquote_loop t)"
  | (six) h l where "escape_byte b = [bsl, CHR ''u'', CHR ''0'', CHR ''0'', hex h, hex l]"
      "h < 16" "l < 16" "h * 16 + l = of_char b"
proof -
  consider "b = bsl" | "b = dqt" | "b = CHR 0x08" | "b = CHR 0x0C" | "b = CHR 0x0A"
    | "b = CHR 0x0D" | "b = CHR 0x09"
    | "b \<notin> {bsl, dqt, CHR 0x08, CHR 0x0C, CHR 0x0A, CHR 0x0D, CHR 0x09}"
    by blast
  then show ?thesis
  proof cases
    case 1
    show ?thesis
      by (rule two [of bsl]) (simp_all add: 1 escape_byte_def unquote_loop_esc control_neq)
  next
    case 2
    show ?thesis
      by (rule two [of dqt]) (simp_all add: 2 escape_byte_def unquote_loop_esc control_neq)
  next
    case 3
    show ?thesis
      by (rule two [of "CHR ''b''"])
        (simp_all add: 3 escape_byte_def unquote_loop_esc control_neq)
  next
    case 4
    show ?thesis
      by (rule two [of "CHR ''f''"])
        (simp_all add: 4 escape_byte_def unquote_loop_esc control_neq)
  next
    case 5
    show ?thesis
      by (rule two [of "CHR ''n''"])
        (simp_all add: 5 escape_byte_def unquote_loop_esc control_neq)
  next
    case 6
    show ?thesis
      by (rule two [of "CHR ''r''"])
        (simp_all add: 6 escape_byte_def unquote_loop_esc control_neq)
  next
    case 7
    show ?thesis
      by (rule two [of "CHR ''t''"])
        (simp_all add: 7 escape_byte_def unquote_loop_esc control_neq)
  next
    case 8
    have "(of_char b :: nat) div 16 < 16"
      using assms(1) by simp
    moreover have "(of_char b :: nat) mod 16 < 16"
      by simp
    moreover have "(of_char b :: nat) div 16 * 16 + of_char b mod 16 = of_char b"
      by simp
    moreover have "escape_byte b = [bsl, CHR ''u'', CHR ''0'', CHR ''0'',
        hex (of_char b div 16), hex (of_char b mod 16)]"
      using 8 by (simp add: escape_byte_def)
    ultimately show ?thesis
      by (rule_tac six)
  qed
qed

lemma scans_escape_byte:
  assumes "(of_char b :: nat) < 0x80" "\<not> htmlSafeSet b"
  shows "scans (escape_byte b)"
  using assms
proof (cases rule: escape_byte_cases)
  case (two e)
  then show ?thesis
    using scans_esc [of e] by simp
next
  case (six h l)
  have "isHex (CHR ''0'')"
    by (simp add: isHex_def)
  with six hex_digit [of h] hex_digit [of l] show ?thesis
    using scans_u [of "CHR ''0''" "CHR ''0''" "hex h" "hex l"] by simp
qed

lemma unquote_escape_byte:
  assumes "(of_char b :: nat) < 0x80" "\<not> htmlSafeSet b"
  shows "unquote_loop (escape_byte b @ t) = map_option ((#) b) (unquote_loop t)"
  using assms
proof (cases rule: escape_byte_cases)
  case (two e)
  then show ?thesis
    by simp
next
  case (six h l)
  let ?s = "CHR ''0'' # CHR ''0'' # hex h # hex l # t"
  have g: "getu4 (bsl # CHR ''u'' # ?s) = int (of_char b)"
    using getu4_u00 [OF six(2,3), of t] six(4) by simp
  have "\<not> IsSurrogate (int (of_char b))"
    using assms(1) by (simp add: IsSurrogate_def)
  with unquote_loop_u [OF g] have "unquote_loop (bsl # CHR ''u'' # ?s)
      = map_option ((@) (EncodeRune (int (of_char b)))) (unquote_loop (drop 4 ?s))"
    by simp
  also have "\<dots> = map_option ((#) b) (unquote_loop t)"
    using EncodeRune_ascii [OF assms(1)] by (cases "unquote_loop t") simp_all
  finally show ?thesis
    using six(1) by simp
qed


text \<open>A piece of a literal that unquotes to the bytes \<open>orig\<close>.\<close>

definition unquotes :: "string \<Rightarrow> string \<Rightarrow> bool" where
  "unquotes piece orig = (\<forall>t. unquote_loop (piece @ t) = map_option ((@) orig) (unquote_loop t))"

lemma map_option_append_single: "map_option ((@) [b]) x = map_option ((#) b) x"
  by (cases x) simp_all

lemma appendString_loop_ascii:
  assumes "(of_char b :: nat) < 0x80"
  shows "appendString_loop (b # src) =
     (if htmlSafeSet b then [b] else escape_byte b) @ appendString_loop src"
  using assms by (simp add: appendString_loop.simps(2) RuneSelf_def)

lemma appendString_loop_high:
  assumes "\<not> (of_char b :: nat) < 0x80" and "DecodeRuneInString (b # src) = (c, w)"
  shows "appendString_loop (b # src) =
     (if c = RuneError \<and> w = 1 then [bsl, CHR ''u'', CHR ''f'', CHR ''f'', CHR ''f'', CHR ''d'']
      else if c = 0x2028 \<or> c = 0x2029 then
        [bsl, CHR ''u'', CHR ''2'', CHR ''0'', CHR ''2'', hex (nat (c mod 16))]
      else take w (b # src)) @ appendString_loop (drop w (b # src))"
  using assms DecodeRune_take [of "b # src"]
  by (simp add: appendString_loop.simps(2) RuneSelf_def)

lemma getu4_202:
  "getu4 (bsl # CHR ''u'' # CHR ''2'' # CHR ''0'' # CHR ''2'' # CHR ''8'' # t) = 0x2028"
  "getu4 (bsl # CHR ''u'' # CHR ''2'' # CHR ''0'' # CHR ''2'' # CHR ''9'' # t) = 0x2029"
  by (simp_all add: getu4_def)

lemma appendString_loop_step:
  obtains piece n where "0 < n" "n \<le> length (b # src)"
    "appendString_loop (b # src) = piece @ appendString_loop (drop n (b # src))"
    "scans piece"
    "ValidString (b # src) \<Longrightarrow> unquotes piece (take n (b # src))"
    "ValidString (b # src) \<Longrightarrow> ValidString (drop n (b # src))"
proof (cases "(of_char b :: nat) < 0x80")
  case True
  note ascii = this
  have v: "ValidString (drop 1 (b # src))" if "ValidString (b # src)"
    using that ascii by (simp add: ValidString_ascii del: ValidString.simps(2))
  show ?thesis
  proof (cases "htmlSafeSet b")
    case True
    then have p: "b \<noteq> dqt" "b \<noteq> bsl" "\<not> (of_char b :: nat) < 0x20"
      by (auto simp: htmlSafeSet_def)
    have "unquotes [b] (take 1 (b # src))"
      using unquote_loop_plain [of b] p ascii
      by (simp add: unquotes_def map_option_append_single)
    with True ascii scans_plain [OF p] v show ?thesis
      by (intro that [of 1 "[b]"]) (simp_all add: appendString_loop_ascii)
  next
    case False
    have "unquotes (escape_byte b) (take 1 (b # src))"
      using unquote_escape_byte [OF ascii False]
      by (simp add: unquotes_def map_option_append_single)
    with False ascii scans_escape_byte [OF ascii False] v show ?thesis
      by (intro that [of 1 "escape_byte b"]) (simp_all add: appendString_loop_ascii)
  qed
next
  case high: False
  obtain c w where cw: "DecodeRuneInString (b # src) = (c, w)"
    by (cases "DecodeRuneInString (b # src)")
  note eq = appendString_loop_high [OF high cw]
  from DecodeRuneInString_pos [OF cw [symmetric]] have w0: "0 < w" .
  show ?thesis
  proof (cases "c = RuneError \<and> w = 1")
    case True
    have "isHex (CHR ''f'')" "isHex (CHR ''d'')"
      by (simp_all add: isHex_def)
    then have "scans [bsl, CHR ''u'', CHR ''f'', CHR ''f'', CHR ''f'', CHR ''d'']"
      by (intro scans_u)
    moreover have "\<not> ValidString (b # src)"
      using cw True by simp
    ultimately show ?thesis
      using True eq by (intro that [of 1 "[bsl, CHR ''u'', CHR ''f'', CHR ''f'', CHR ''f'', CHR ''d'']"]) simp_all
  next
    case valid: False
    from DecodeRune_valid [OF cw valid] have wl: "w \<le> length (b # src)"
      and wf: "wf_seq (take w (b # src))"
      by simp_all
    from DecodeRune_valid_prefix [OF cw valid] have
      pre: "\<And>t. DecodeRuneInString (take w (b # src) @ t) = (c, w)"
      and enc: "EncodeRune c = take w (b # src)"
      by simp_all
    have v: "ValidString (drop w (b # src))" if "ValidString (b # src)"
      using that cw by simp
    show ?thesis
    proof (cases "c = 0x2028 \<or> c = 0x2029")
      case True
      let ?piece = "[bsl, CHR ''u'', CHR ''2'', CHR ''0'', CHR ''2'', hex (nat (c mod 16))]"
      from True have h: "hex (nat (c mod 16)) = CHR ''8'' \<and> c = 0x2028
          \<or> hex (nat (c mod 16)) = CHR ''9'' \<and> c = 0x2029"
        by (auto simp: hex_def)
      have "isHex (CHR ''2'')" "isHex (CHR ''0'')" "isHex (hex (nat (c mod 16)))"
        using h by (auto simp: isHex_def)
      then have sc: "scans ?piece"
        by (intro scans_u)
      have g: "getu4 (?piece @ t) = c" for t
        using h getu4_202 [of t] by auto
      have ns: "\<not> IsSurrogate c" "0 \<le> c"
        using True by (auto simp: IsSurrogate_def)
      have "unquote_loop (?piece @ t) = map_option ((@) (take w (b # src))) (unquote_loop t)" for t
        using unquote_loop_u [of "CHR ''2'' # CHR ''0'' # CHR ''2'' # hex (nat (c mod 16)) # t" c]
          g [of t] ns enc by simp
      then have "unquotes ?piece (take w (b # src))"
        by (simp add: unquotes_def)
      with True valid eq w0 wl sc v show ?thesis
        by (intro that [of w ?piece]) simp_all
    next
      case False
      let ?piece = "take w (b # src)"
      have hd: "hd ?piece = b"
        using w0 by (cases w) simp_all
      from wf_seq_high [OF wf] hd high have sc: "scans ?piece"
        by (intro scans_high) simp
      have "unquote_loop (?piece @ t) = map_option ((@) ?piece) (unquote_loop t)" for t
      proof -
        from w0 obtain rest where r: "?piece = b # rest"
          by (cases w) simp_all
        have "unquote_loop (?piece @ t) = unquote_loop (b # rest @ t)"
          by (simp add: r)
        also have "\<dots> = (case DecodeRuneInString (b # rest @ t) of
            (rr, w') \<Rightarrow> map_option ((@) (EncodeRune rr)) (unquote_loop (drop w' (b # rest @ t))))"
          by (rule unquote_loop_multi [OF high])
        also have "b # rest @ t = ?piece @ t"
          by (simp add: r)
        also have "(case DecodeRuneInString (?piece @ t) of
            (rr, w') \<Rightarrow> map_option ((@) (EncodeRune rr)) (unquote_loop (drop w' (?piece @ t))))
            = map_option ((@) ?piece) (unquote_loop t)"
          using pre [of t] enc wl by simp
        finally show ?thesis .
      qed
      then have "unquotes ?piece (take w (b # src))"
        by (simp add: unquotes_def)
      with False valid eq w0 wl sc v show ?thesis
        by (intro that [of w ?piece]) simp_all
    qed
  qed
qed


lemma stateInString_appendString_loop:
  "stateInString (appendString_loop s @ dqt # rest) = Some (appendString_loop s, rest)"
proof (induction "length s" arbitrary: s rule: less_induct)
  case less
  show ?case
  proof (cases s)
    case Nil
    then show ?thesis
      by (simp add: stateInString.simps(2))
  next
    case (Cons b src)
    obtain piece n where n: "0 < n" "n \<le> length (b # src)"
      and eq: "appendString_loop (b # src) = piece @ appendString_loop (drop n (b # src))"
      and sc: "scans piece"
      by (rule appendString_loop_step [of b src]) blast
    from n have "length (drop n (b # src)) < length s"
      unfolding Cons by simp
    from less [OF this]
    have "stateInString (appendString_loop (drop n (b # src)) @ dqt # rest)
        = Some (appendString_loop (drop n (b # src)), rest)" .
    with scansD [OF sc, of "appendString_loop (drop n (b # src)) @ dqt # rest"]
    show ?thesis
      unfolding Cons eq by simp
  qed
qed

lemma unquote_appendString_loop:
  "ValidString s \<Longrightarrow> unquote_loop (appendString_loop s) = Some s"
proof (induction "length s" arbitrary: s rule: less_induct)
  case less
  show ?case
  proof (cases s)
    case Nil
    then show ?thesis
      by simp
  next
    case (Cons b src)
    obtain piece n where n: "0 < n" "n \<le> length (b # src)"
      and eq: "appendString_loop (b # src) = piece @ appendString_loop (drop n (b # src))"
      and un: "ValidString (b # src) \<Longrightarrow> unquotes piece (take n (b # src))"
      and v: "ValidString (b # src) \<Longrightarrow> ValidString (drop n (b # src))"
      by (rule appendString_loop_step [of b src]) blast
    from n have "length (drop n (b # src)) < length s"
      unfolding Cons by simp
    from less.hyps [OF this v] less.prems
    have "unquote_loop (appendString_loop (drop n (b # src))) = Some (drop n (b # src))"
      unfolding Cons by simp
    moreover from un less.prems have "unquotes piece (take n (b # src))"
      unfolding Cons by simp
    ultimately show ?thesis
      unfolding Cons eq by (simp add: unquotes_def)
  qed
qed

text \<open>
  A literal written by the encoder is read back by the decoder: the scanner finds its end,
  and unquoting gives the string back when it is valid UTF-8.
\<close>

lemma read_appendString:
  "stateInString (tl (appendString s) @ rest) = Some (appendString_loop s, rest)"
  "hd (appendString s) = dqt"
  "ValidString s \<Longrightarrow> unquoteBytes (appendString_loop s) = Some s"
  by (simp_all add: appendString_def stateInString_appendString_loop
        unquoteBytes_unquote_loop unquote_appendString_loop)

section \<open>Objects written by the encoder are read back\<close>

lemma skipSpace_nonspace: "\<not> isSpace c \<Longrightarrow> skipSpace (c # s) = c # s"
  by (simp add: skipSpace_def)

lemma not_isSpace:
  "\<not> isSpace dqt" "\<not> isSpace (CHR '':'')" "\<not> isSpace (CHR '','')" "\<not> isSpace (CHR ''}'')"
  "\<not> isSpace (CHR ''{'')" "\<not> isSpace (CHR ''n'')"
  by (simp_all add: isSpace_def dqt_def)

lemma punct_neq:
  "CHR '','' \<noteq> dqt" "CHR ''}'' \<noteq> dqt" "CHR '':'' \<noteq> dqt" "dqt \<noteq> CHR ''}''" "dqt \<noteq> CHR ''n''"
  by (simp_all add: dqt_def)

lemma member_value_appendString:
  assumes "ValidString v"
  shows "member_value (appendString v @ rest) = Some (v, rest)"
  using assms stateInString_appendString_loop [of v rest]
  by (simp add: member_value_def appendString_def unquoteBytes_unquote_loop
        unquote_appendString_loop)

lemma object_members_entry:
  assumes "ValidString k" "ValidString v" "\<not> isSpace c"
  shows "object_members acc (appendString k @ CHR '':'' # appendString v @ c # rest) =
     (if c = CHR '','' then object_members (fmupd k v acc) rest
      else if c = CHR ''}'' then Some (fmupd k v acc)
      else None)"
proof -
  let ?s2 = "CHR '':'' # appendString v @ c # rest"
  have 1: "skipSpace (appendString k @ ?s2) = dqt # (appendString_loop k @ dqt # ?s2)"
    by (simp add: appendString_def skipSpace_nonspace not_isSpace)
  have 2: "stateInString (appendString_loop k @ dqt # ?s2) = Some (appendString_loop k, ?s2)"
    by (rule stateInString_appendString_loop)
  have 3: "unquoteBytes (appendString_loop k) = Some k"
    using assms(1) by (simp add: unquoteBytes_unquote_loop unquote_appendString_loop)
  have 4: "skipSpace ?s2 = ?s2"
    by (simp add: skipSpace_nonspace not_isSpace)
  have 5: "skipSpace (appendString v @ c # rest) = appendString v @ c # rest"
    by (simp add: appendString_def skipSpace_nonspace not_isSpace)
  have 6: "member_value (appendString v @ c # rest) = Some (v, c # rest)"
    by (rule member_value_appendString [OF assms(2)])
  have 7: "skipSpace (c # rest) = c # rest"
    by (rule skipSpace_nonspace [OF assms(3)])
  show ?thesis
    by (subst object_members.simps) (simp add: 1 2 3 4 5 6 7)
qed

definition store_all :: "(string \<times> string) list \<Rightarrow> (string, string) fmap \<Rightarrow> (string, string) fmap" where
  "store_all kvs acc = fold (\<lambda>(k, v). fmupd k v) kvs acc"

lemma store_all_simps [simp]:
  "store_all [] acc = acc"
  "store_all ((k, v) # kvs) acc = store_all kvs (fmupd k v acc)"
  by (simp_all add: store_all_def)

lemma object_members_entries:
  assumes "ValidString k" "ValidString v" "\<forall>(k, v) \<in> set kvs. ValidString k \<and> ValidString v"
  shows "object_members acc
           (appendString k @ CHR '':'' # appendString v
            @ mapEncoder_entries (Suc i) kvs @ CHR ''}'' # rest)
         = Some (store_all ((k, v) # kvs) acc)"
  using assms
proof (induction kvs arbitrary: k v acc i)
  case Nil
  then show ?case
    by (simp add: object_members_entry not_isSpace)
next
  case (Cons kv kvs)
  obtain k' v' where kv: "kv = (k', v')"
    by (cases kv)
  from Cons.prems kv have v': "ValidString k'" "ValidString v'"
    "\<forall>(k, v) \<in> set kvs. ValidString k \<and> ValidString v"
    by simp_all
  have "object_members acc
           (appendString k @ CHR '':'' # appendString v
            @ mapEncoder_entries (Suc i) (kv # kvs) @ CHR ''}'' # rest)
      = object_members acc
           (appendString k @ CHR '':'' # appendString v @ CHR '','' #
             (appendString k' @ CHR '':'' # appendString v'
              @ mapEncoder_entries (Suc (Suc i)) kvs @ CHR ''}'' # rest))"
    by (simp add: kv)
  also have "\<dots> = object_members (fmupd k v acc)
             (appendString k' @ CHR '':'' # appendString v'
              @ mapEncoder_entries (Suc (Suc i)) kvs @ CHR ''}'' # rest)"
    using Cons.prems(1,2) by (simp add: object_members_entry not_isSpace)
  also have "\<dots> = Some (store_all ((k', v') # kvs) (fmupd k v acc))"
    by (rule Cons.IH [OF v'])
  finally show ?case
    by (simp add: kv)
qed

lemma decode_object_entries:
  assumes "\<forall>(k, v) \<in> set kvs. ValidString k \<and> ValidString v"
  shows "decode_object acc (mapEncoder_entries 0 kvs @ CHR ''}'' # rest) = Some (store_all kvs acc)"
proof (cases kvs)
  case Nil
  then show ?thesis
    by (simp add: decode_object_def skipSpace_nonspace not_isSpace)
next
  case (Cons kv kvs')
  obtain k v where kv: "kv = (k, v)"
    by (cases kv)
  from assms Cons kv have v: "ValidString k" "ValidString v"
    "\<forall>(k, v) \<in> set kvs'. ValidString k \<and> ValidString v"
    by simp_all
  let ?t = "appendString k @ CHR '':'' # appendString v
            @ mapEncoder_entries (Suc 0) kvs' @ CHR ''}'' # rest"
  have t: "mapEncoder_entries 0 kvs @ CHR ''}'' # rest = ?t"
    by (simp add: Cons kv)
  obtain t' where t': "?t = dqt # t'"
    by (simp add: appendString_def)
  have "decode_object acc (dqt # t') = object_members acc (dqt # t')"
    by (simp add: decode_object_def skipSpace_nonspace not_isSpace punct_neq)
  then have "decode_object acc ?t = object_members acc ?t"
    unfolding t' .
  with object_members_entries [OF v, of acc 0 rest] show ?thesis
    unfolding t by (simp add: Cons kv)
qed

lemma fmlookup_store_all:
  "fmlookup (store_all kvs acc) x =
     (case map_of (rev kvs) x of None \<Rightarrow> fmlookup acc x | Some v \<Rightarrow> Some v)"
proof (induction kvs arbitrary: acc)
  case Nil
  show ?case by simp
next
  case (Cons kv kvs)
  obtain k v where kv: "kv = (k, v)"
    by (cases kv)
  show ?case
    unfolding kv store_all_simps Cons.IH
    by (auto simp: map_add_def split: option.splits)
qed

lemma distinct_sorted_list_of_fmap: "distinct (map fst (sorted_list_of_fmap mp))"
  by (simp add: sorted_list_of_fmap_def comp_def sorted_list_of_fset.rep_eq)

lemma store_all_sorted_list: "store_all (sorted_list_of_fmap mp) fmempty = mp"
proof (rule fmap_ext)
  fix x
  have "map_of (rev (sorted_list_of_fmap mp)) = map_of (sorted_list_of_fmap mp)"
    by (rule map_of_inject_set [THEN iffD2, OF _ distinct_sorted_list_of_fmap])
      (simp_all add: distinct_sorted_list_of_fmap rev_map [symmetric])
  then show "fmlookup (store_all (sorted_list_of_fmap mp) fmempty) x = fmlookup mp x"
    by (simp add: fmlookup_store_all split: option.splits)
qed

lemma ValidMap_entries:
  "ValidMap (Some mp) \<Longrightarrow> \<forall>(k, v) \<in> set (sorted_list_of_fmap mp). ValidString k \<and> ValidString v"
proof -
  assume "ValidMap (Some mp)"
  then have "fmpred (curry (\<lambda>(k, v). ValidString k \<and> ValidString v)) mp"
    by (simp add: ValidMap_def curry_def)
  then have "list_all (\<lambda>(k, v). ValidString k \<and> ValidString v) (sorted_list_of_fmap mp)"
    by (simp only: list_all_sorted_list)
  then show ?thesis
    by (simp add: list_all_iff)
qed

text \<open>Decoding what the encoder wrote gives the map back, when the map is valid UTF-8.\<close>

lemma Decode_Encode:
  assumes "ValidMap mo"
  shows "Decoder_Decode (Encoder_Encode mo) m0 = Inr (case mo of None \<Rightarrow> None | Some mp \<Rightarrow>
     Some (store_all (sorted_list_of_fmap mp) (case m0 of None \<Rightarrow> fmempty | Some a \<Rightarrow> a)))"
proof (cases mo)
  case None
  then show ?thesis
    by (simp add: Decoder_Decode_def Encoder_Encode_def mapEncoder_encode_def
          skipSpace_nonspace not_isSpace)
next
  case (Some mp)
  with assms have v: "\<forall>(k, v) \<in> set (sorted_list_of_fmap mp). ValidString k \<and> ValidString v"
    by (simp add: ValidMap_entries)
  have "Encoder_Encode mo
      = CHR ''{'' # (mapEncoder_entries 0 (sorted_list_of_fmap mp) @ CHR ''}'' # [CHR 0x0A])"
    by (simp add: Some Encoder_Encode_def mapEncoder_encode_def)
  then show ?thesis
    using decode_object_entries [OF v, of _ "[CHR 0x0A]"]
    by (simp add: Some Decoder_Decode_def skipSpace_nonspace not_isSpace)
qed

lemma Decode_Encode_fresh:
  assumes "ValidMap mo"
  shows "Decoder_Decode (Encoder_Encode mo) (Some fmempty) = Inr mo"
  using Decode_Encode [OF assms, of "Some fmempty"]
  by (cases mo) (simp_all add: store_all_sorted_list)


section \<open>What the decoder accepts\<close>

lemma member_value_Some:
  assumes "member_value s = Some (v, rest)"
  shows "(\<exists>lit s'. s = dqt # s' \<and> stateInString s' = Some (lit, rest) \<and> unquoteBytes lit = Some v)
     \<or> (s = CHR ''n'' # CHR ''u'' # CHR ''l'' # CHR ''l'' # rest \<and> v = [])"
  using assms unfolding member_value_def
  by (auto split: list.splits if_splits option.splits)

lemma object_members_Some:
  assumes "object_members acc s = Some mp"
  obtains s1 lit s2 key s3 v s4 c3 s5 where
    "skipSpace s = dqt # s1" "stateInString s1 = Some (lit, s2)" "unquoteBytes lit = Some key"
    "skipSpace s2 = CHR '':'' # s3" "member_value (skipSpace s3) = Some (v, s4)"
    "skipSpace s4 = c3 # s5"
    "c3 = CHR '','' \<and> object_members (fmupd key v acc) s5 = Some mp
     \<or> c3 = CHR ''}'' \<and> mp = fmupd key v acc"
    "length s5 < length s"
proof -
  from assms have a: "(case skipSpace s of
        [] \<Rightarrow> None
      | c # s1 \<Rightarrow>
          if c \<noteq> dqt then None
          else
            (case stateInString s1 of
               None \<Rightarrow> None
             | Some (lit, s2) \<Rightarrow>
                 (case unquoteBytes lit of
                    None \<Rightarrow> None
                  | Some key \<Rightarrow>
                      (case skipSpace s2 of
                         [] \<Rightarrow> None
                       | c2 # s3 \<Rightarrow>
                           if c2 \<noteq> CHR '':'' then None
                           else
                             (case member_value (skipSpace s3) of
                                None \<Rightarrow> None
                              | Some (v, s4) \<Rightarrow>
                                  (case skipSpace s4 of
                                     [] \<Rightarrow> None
                                   | c3 # s5 \<Rightarrow>
                                       if c3 = CHR '','' then object_members (fmupd key v acc) s5
                                       else if c3 = CHR ''}'' then Some (fmupd key v acc)
                                       else None)))))) = Some mp"
    by (subst (asm) object_members.simps)
  then obtain s1 where 1: "skipSpace s = dqt # s1"
    by (auto split: list.splits if_splits)
  with a obtain lit s2 where 2: "stateInString s1 = Some (lit, s2)"
    by (auto split: option.splits)
  with a 1 obtain key where 3: "unquoteBytes lit = Some key"
    by (auto split: option.splits)
  with a 1 2 obtain s3 where 4: "skipSpace s2 = CHR '':'' # s3"
    by (auto split: list.splits if_splits)
  with a 1 2 3 obtain v s4 where 5: "member_value (skipSpace s3) = Some (v, s4)"
    by (auto split: option.splits)
  with a 1 2 3 4 obtain c3 s5 where 6: "skipSpace s4 = c3 # s5"
    by (auto split: list.splits)
  with a 1 2 3 4 5 have "c3 = CHR '','' \<and> object_members (fmupd key v acc) s5 = Some mp
     \<or> c3 = CHR ''}'' \<and> mp = fmupd key v acc"
    by (auto split: if_splits)
  moreover have "length s5 < length s"
    using skipSpace_length [of s] skipSpace_length [of s2] skipSpace_length [of s3]
      skipSpace_length [of s4] stateInString_shorter [OF 2] member_value_shorter [OF 5]
    unfolding 1 4 6 by simp
  ultimately show ?thesis
    using 1 2 3 4 5 6 by (rule_tac that)
qed


lemma member_value_valid:
  "member_value s = Some (v, rest) \<Longrightarrow> ValidString v"
  using member_value_Some [of s v rest] unquote_loop_valid [of _ v]
  by (auto simp: unquoteBytes_unquote_loop)

lemma ValidMap_fmupd:
  "ValidMap (Some acc) \<Longrightarrow> ValidString k \<Longrightarrow> ValidString v \<Longrightarrow> ValidMap (Some (fmupd k v acc))"
  by (simp add: ValidMap_def fmpred_upd)

lemma object_members_valid:
  "object_members acc s = Some mp \<Longrightarrow> ValidMap (Some acc) \<Longrightarrow> ValidMap (Some mp)"
proof (induction "length s" arbitrary: s acc rule: less_induct)
  case less
  from less.prems(1) obtain s1 lit s2 key s3 v s4 c3 s5 where
    k: "unquoteBytes lit = Some key" and v: "member_value (skipSpace s3) = Some (v, s4)"
    and c: "c3 = CHR '','' \<and> object_members (fmupd key v acc) s5 = Some mp
            \<or> c3 = CHR ''}'' \<and> mp = fmupd key v acc"
    and l: "length s5 < length s"
    by (rule object_members_Some)
  from k have "ValidString key"
    by (simp add: unquoteBytes_unquote_loop unquote_loop_valid)
  with less.prems(2) member_value_valid [OF v] have "ValidMap (Some (fmupd key v acc))"
    by (intro ValidMap_fmupd)
  with c less.hyps [OF l] show ?case
    by auto
qed

lemma Decoder_Decode_valid:
  assumes "Decoder_Decode input m0 = Inr mo" "ValidMap m0"
  shows "ValidMap mo"
proof (cases mo)
  case None
  then show ?thesis by (simp add: ValidMap_def)
next
  case (Some mp)
  define acc where "acc = (case m0 of None \<Rightarrow> fmempty | Some a \<Rightarrow> a)"
  have acc: "ValidMap (Some acc)"
    using assms(2) by (cases m0) (simp_all add: acc_def ValidMap_def)
  from assms(1) Some obtain s where "decode_object acc s = Some mp"
    unfolding Decoder_Decode_def acc_def [symmetric]
    by (auto split: list.splits if_splits option.splits)
  then have "mp = acc \<or> (\<exists>t. object_members acc t = Some mp)"
    unfolding decode_object_def by (auto split: list.splits if_splits)
  with acc object_members_valid show ?thesis
    unfolding Some by blast
qed

lemma NewFileStorage_valid:
  assumes "NewFileStorage open_fails fsys filename = (fsys', Inr fs)"
  shows "ValidMap (m (ms fs))"
proof -
  have e: "ValidMap (Some fmempty)"
    by (simp add: ValidMap_def)
  from assms show ?thesis
    unfolding NewFileStorage_def Let_def
    using Decoder_Decode_valid [OF _ e] e
    by (auto split: prod.splits sum.splits if_splits)
qed

section \<open>The storages: basic facts\<close>

lemma MemStorage_Set_Return:
  "MemStorage_Set s key value = Return (s', err) \<longleftrightarrow>
     (\<exists>mp. m s = Some mp \<and> s' = s\<lparr>m := Some (fmupd key value mp)\<rparr> \<and> err = None)"
  by (auto simp: MemStorage_Set_def split: option.splits)

lemma MemStorage_Get_found:
  "m s = Some mp \<Longrightarrow> fmlookup mp key = Some v \<Longrightarrow> MemStorage_Get s key = (v, None)"
  by (simp add: MemStorage_Get_def map_index_def)

lemma MemStorage_Get_absent:
  "\<not> has_key (m s) key \<Longrightarrow> MemStorage_Get s key = ([], Some ErrNotFound)"
  by (auto simp: MemStorage_Get_def map_index_def has_key_def ErrNotFound_def fmdom_notI
           split: option.splits)

lemma MemStorage_Get_present:
  "has_key (m s) key \<Longrightarrow> \<exists>v. MemStorage_Get s key = (v, None)"
  by (auto simp: MemStorage_Get_def map_index_def has_key_def split: option.splits
           dest: fmdom_notI)

text \<open>What \<^verbatim>\<open>FileStorage.Set\<close> does, by the outcomes of its system calls.\<close>

lemma FileStorage_Set_nil:
  "m (ms fs) = None \<Longrightarrow> FileStorage_Set io fsys fs key value = Panic"
  by (simp add: FileStorage_Set_def MemStorage_Set_def)

lemma FileStorage_Set_truncate_fails:
  "m (ms fs) = Some mp \<Longrightarrow> truncate_fails io = Some e \<Longrightarrow>
   FileStorage_Set io fsys fs key value =
     Return (fsys, fs\<lparr>ms := (ms fs)\<lparr>m := Some (fmupd key value mp)\<rparr>\<rparr>,
             Some (fmt_Errorf ''unable to truncate file: '' (Some (os_PathError e))))"
  by (simp add: FileStorage_Set_def MemStorage_Set_def File_Truncate_def)

lemma FileStorage_Set_seek_fails:
  "m (ms fs) = Some mp \<Longrightarrow> truncate_fails io = None \<Longrightarrow> seek_fails io = Some e \<Longrightarrow>
   FileStorage_Set io fsys fs key value =
     Return (fsys(Name (f fs) \<mapsto> []), fs\<lparr>ms := (ms fs)\<lparr>m := Some (fmupd key value mp)\<rparr>\<rparr>,
             Some (fmt_Errorf ''unable to get the beginning of file: '' (Some (os_PathError e))))"
  by (simp add: FileStorage_Set_def MemStorage_Set_def File_Truncate_def File_Seek_def)

lemma FileStorage_Set_write_fails:
  "m (ms fs) = Some mp \<Longrightarrow> truncate_fails io = None \<Longrightarrow> seek_fails io = None \<Longrightarrow>
   write_fails io = Some (n, e) \<Longrightarrow>
   FileStorage_Set io fsys fs key value =
     Return (fsys(Name (f fs) \<mapsto> take n (Encoder_Encode (Some (fmupd key value mp)))),
             fs\<lparr>ms := (ms fs)\<lparr>m := Some (fmupd key value mp)\<rparr>\<rparr>,
             Some (fmt_Errorf ''unable to encode data into the file: '' (Some (os_PathError e))))"
  by (simp add: FileStorage_Set_def MemStorage_Set_def File_Truncate_def File_Seek_def
        File_Write_def file_contents_def)

lemma FileStorage_Set_succeeds:
  "m (ms fs) = Some mp \<Longrightarrow> truncate_fails io = None \<Longrightarrow> seek_fails io = None \<Longrightarrow>
   write_fails io = None \<Longrightarrow>
   FileStorage_Set io fsys fs key value =
     Return (fsys(Name (f fs) \<mapsto> Encoder_Encode (Some (fmupd key value mp))),
             fs\<lparr>ms := (ms fs)\<lparr>m := Some (fmupd key value mp)\<rparr>\<rparr>, None)"
  by (simp add: FileStorage_Set_def MemStorage_Set_def File_Truncate_def File_Seek_def
        File_Write_def file_contents_def)

lemma FileStorage_Set_memory:
  assumes "FileStorage_Set io fsys fs key value = Return (fsys', fs', err)"
  shows "\<exists>mp. m (ms fs) = Some mp \<and> fs' = fs\<lparr>ms := (ms fs)\<lparr>m := Some (fmupd key value mp)\<rparr>\<rparr>"
proof (cases "m (ms fs)")
  case None
  with assms show ?thesis by (simp add: FileStorage_Set_nil)
next
  case (Some mp)
  show ?thesis
  proof (cases "truncate_fails io")
    case t: None
    show ?thesis
    proof (cases "seek_fails io")
      case s: None
      show ?thesis
      proof (cases "write_fails io")
        case None
        from assms FileStorage_Set_succeeds [OF Some t s None] Some show ?thesis by simp
      next
        case (Some a)
        then obtain n e where "write_fails io = Some (n, e)" by (cases a) simp
        from assms FileStorage_Set_write_fails [OF \<open>m (ms fs) = Some mp\<close> t s this] \<open>m (ms fs) = Some mp\<close>
        show ?thesis by simp
      qed
    next
      case (Some e)
      from assms FileStorage_Set_seek_fails [OF \<open>m (ms fs) = Some mp\<close> t Some] \<open>m (ms fs) = Some mp\<close>
      show ?thesis by simp
    qed
  next
    case (Some e)
    from assms FileStorage_Set_truncate_fails [OF \<open>m (ms fs) = Some mp\<close> Some] \<open>m (ms fs) = Some mp\<close>
    show ?thesis by simp
  qed
qed

lemma FileStorage_Set_success_iff:
  "FileStorage_Set io fsys fs key value = Return (fsys', fs', None) \<longleftrightarrow>
     (\<exists>mp. m (ms fs) = Some mp \<and> truncate_fails io = None \<and> seek_fails io = None
        \<and> write_fails io = None
        \<and> fsys' = fsys(Name (f fs) \<mapsto> Encoder_Encode (Some (fmupd key value mp)))
        \<and> fs' = fs\<lparr>ms := (ms fs)\<lparr>m := Some (fmupd key value mp)\<rparr>\<rparr>)"
  by (auto simp: FileStorage_Set_def MemStorage_Set_def File_Truncate_def File_Seek_def
        File_Write_def file_contents_def Let_def split: option.splits)


lemma Storage_Set_Return:
  assumes "Storage_Set io fsys st key value = Return (fsys', st', err)"
  shows "\<exists>mp. Storage_map st = Some mp \<and> Storage_map st' = Some (fmupd key value mp)"
proof (cases st)
  case (InMemory s)
  with assms show ?thesis
    by (auto simp: Storage_Set_def MemStorage_Set_Return split: outcome.splits)
next
  case (InFile fs)
  with assms obtain fs' where "FileStorage_Set io fsys fs key value = Return (fsys', fs', err)"
    and "st' = InFile fs'"
    by (auto simp: Storage_Set_def split: outcome.splits)
  with FileStorage_Set_memory [of io fsys fs key "value" fsys' fs' err] InFile show ?thesis
    by auto
qed

lemma Storage_Get_map:
  "Storage_Get st key = (case map_index (Storage_map st) key of
      (value, ok) \<Rightarrow> if \<not> ok then (value, Some ErrNotFound) else (value, None))"
  by (cases st)
    (simp_all add: Storage_Get_def FileStorage_Get_def MemStorage_Get_def ErrNotFound_def
       split: prod.splits)

lemma map_index_fmupd:
  "map_index (Some (fmupd key value mp)) key' =
     (if key = key' then (value, True) else map_index (Some mp) key')"
  by (simp add: map_index_def)

lemma NewFileStorage_file:
  assumes "NewFileStorage open_fails fsys filename = (fsys', Inr fs)"
  shows "f fs = File filename" and "\<exists>c. fsys' filename = Some c"
    and "fsys' = (case fsys filename of None \<Rightarrow> fsys(filename \<mapsto> []) | Some c \<Rightarrow> fsys)"
    and "open_fails = None"
  using assms unfolding NewFileStorage_def os_OpenFile_def Let_def
  by (auto split: prod.splits sum.splits if_splits option.splits)

lemma NewFileStorage_existing:
  assumes "fsys filename = Some c"
  shows "NewFileStorage None fsys filename =
     (fsys, case Decoder_Decode c (Some fmempty) of
              Inl err \<Rightarrow> if err \<noteq> io_EOF
                then Inl (fmt_Errorf (''unable to decode contents of file '' @ filename @ '': '')
                            (Some err))
                else Inr \<lparr>ms = \<lparr>m = Some fmempty\<rparr>, f = File filename\<rparr>
            | Inr m1 \<Rightarrow> Inr \<lparr>ms = \<lparr>m = m1\<rparr>, f = File filename\<rparr>)"
  using assms
  by (simp add: NewFileStorage_def os_OpenFile_def Let_def file_contents_def split: sum.splits)

lemma FileStorage_eq:
  fixes a b :: FileStorage
  shows "m (ms a) = m (ms b) \<Longrightarrow> f a = f b \<Longrightarrow> a = b"
  by simp

section \<open>Evaluating the encoder and the decoder\<close>

lemma sorted_list_of_fmap_single: "sorted_list_of_fmap (fmupd k v fmempty) = [(k, v)]"
  by (simp add: sorted_list_of_fmap_def sorted_list_of_fset.rep_eq)

lemma Encode_k_v:
  \<open>Encoder_Encode (Some (fmupd ''k'' ''v'' fmempty)) = ''{"k":"v"}'' @ [CHR 0x0A]\<close>
  by (simp add: Encoder_Encode_def mapEncoder_encode_def sorted_list_of_fmap_single
        appendString_def appendString_loop.simps RuneSelf_def htmlSafeSet_def dqt_def bsl_def)

lemma Encode_k_xff:
  \<open>Encoder_Encode (Some (fmupd ''k'' [CHR 0xFF] fmempty))
     = ''{"k":"'' @ [CHR 0x5C] @ ''ufffd"}'' @ [CHR 0x0A]\<close>
  by (simp add: Encoder_Encode_def mapEncoder_encode_def sorted_list_of_fmap_single
        appendString_def appendString_loop.simps RuneSelf_def htmlSafeSet_def dqt_def bsl_def
        DecodeRuneInString_def UTFMax_def utf8_first_def)

lemma char_of_replacement:
  "char_of (239::nat) = CHR 0xEF" "char_of (191::nat) = CHR 0xBF" "char_of (189::nat) = CHR 0xBD"
  by code_simp+

lemma EncodeRune_FFFD: "EncodeRune 0xFFFD = [CHR 0xEF, CHR 0xBF, CHR 0xBD]"
  by (simp add: EncodeRune_def RuneError_def char_of_replacement)

lemma getu4_fffd:
  "getu4 (bsl # CHR ''u'' # CHR ''f'' # CHR ''f'' # CHR ''f'' # CHR ''d'' # t) = 0xFFFD"
  by (simp add: getu4_def)

lemma unquote_fffd:
  "unquoteBytes [bsl, CHR ''u'', CHR ''f'', CHR ''f'', CHR ''f'', CHR ''d'']
     = Some [CHR 0xEF, CHR 0xBF, CHR 0xBD]"
  using unquote_loop_u [of "[CHR ''f'', CHR ''f'', CHR ''f'', CHR ''d'']" "0xFFFD"]
    getu4_fffd [of "[]"]
  by (simp add: unquoteBytes_unquote_loop EncodeRune_FFFD IsSurrogate_def)

lemma Decode_k_ufffd:
  \<open>Decoder_Decode (''{"k":"'' @ [CHR 0x5C] @ ''ufffd"}'' @ [CHR 0x0A]) (Some fmempty)
     = Inr (Some (fmupd ''k'' [CHR 0xEF, CHR 0xBF, CHR 0xBD] fmempty))\<close>
  using unquote_fffd
  by (simp add: Decoder_Decode_def skipSpace_def isSpace_def decode_object_def
      object_members.simps stateInString.simps member_value_def dqt_def bsl_def isHex_def
      unquoteBytes_def unquote_prefix.simps unquote_loop.simps RuneSelf_def)


lemma Decode_a:
  \<open>Decoder_Decode ''{"a":"1"}'' (Some fmempty) = Inr (Some (fmupd ''a'' ''1'' fmempty))\<close>
  by code_simp

lemma Decode_space: \<open>Decoder_Decode '' '' (Some fmempty) = Inl io_EOF\<close>
  by code_simp

lemma Decode_empty: \<open>Decoder_Decode [] mo = Inl io_EOF\<close>
  by (simp add: Decoder_Decode_def skipSpace_def)

lemma Valid_k_v: "ValidString ''k''" "ValidString ''v''"
  by (simp_all add: DecodeRuneInString_def RuneSelf_def RuneError_def)

lemma not_Valid_xff: "\<not> ValidString [CHR 0xFF]"
  by (simp add: DecodeRuneInString_def RuneSelf_def RuneError_def utf8_first_def)


lemma has_key_empty: "\<not> has_key (Some fmempty) key"
  by (simp add: has_key_def)

lemma Storage_Get_error_iff:
  "snd (Storage_Get st key) \<noteq> None \<longleftrightarrow> \<not> has_key (Storage_map st) key"
  by (auto simp: Storage_Get_map map_index_def has_key_def fmdom_notI
      split: option.splits dest: fmdom_notD intro: fmdomI)

lemma do_call_keeps_absent:
  assumes "\<not> has_key (Storage_map st) key" and "\<not> sets_key key c"
  shows "\<not> has_key (Storage_map (snd (fst (do_call (fsys, st) c)))) key"
proof (cases c)
  case (CallGet k)
  with assms show ?thesis by simp
next
  case (CallSet k v io)
  with assms(2) have ne: "k \<noteq> key"
    by simp
  show ?thesis
  proof (cases "Storage_Set io fsys st k v")
    case Panic
    with CallSet assms(1) show ?thesis by simp
  next
    case (Return r)
    obtain fsys' st' err where r: "r = (fsys', st', err)"
      by (cases r)
    from Storage_Set_Return [OF Return [unfolded r]] obtain mp where
      "Storage_map st = Some mp" "Storage_map st' = Some (fmupd k v mp)"
      by blast
    with assms(1) ne CallSet Return r show ?thesis
      by (simp add: has_key_def)
  qed
qed

lemma do_calls_keep_absent:
  assumes "\<not> has_key (Storage_map st) key" and "\<forall>c \<in> set cs. \<not> sets_key key c"
  shows "\<not> has_key (Storage_map (snd (do_calls (fsys, st) cs))) key"
  using assms
proof (induction cs arbitrary: fsys st)
  case Nil
  then show ?case by simp
next
  case (Cons c cs)
  obtain fsys' st' where w: "fst (do_call (fsys, st) c) = (fsys', st')"
    by (cases "fst (do_call (fsys, st) c)")
  from do_call_keeps_absent [OF Cons.prems(1), of c fsys] Cons.prems(2) w
  have "\<not> has_key (Storage_map st') key"
    by simp
  from Cons.IH [OF this, of fsys'] Cons.prems(2) w show ?case
    by simp
qed

section \<open>What the decoder accepts is a JSON text\<close>


lemma json_ws_append: "json_ws (a @ b) = (json_ws a \<and> json_ws b)"
  by (simp add: json_ws_def)

lemma skipSpace_split:
  obtains w where "json_ws w" and "s = w @ skipSpace s"
proof
  show "json_ws (takeWhile isSpace s)"
    by (simp add: json_ws_def list_all_iff) (meson set_takeWhileD)
  show "s = takeWhile isSpace s @ skipSpace s"
    by (simp add: skipSpace_def)
qed

lemma skipSpace_Nil_iff: "skipSpace s = [] \<longleftrightarrow> json_ws s"
  by (simp add: skipSpace_def json_ws_def list_all_iff)

lemma stateInString_chars:
  "stateInString s = Some (lit, rest) \<Longrightarrow> json_chars lit \<and> s = lit @ dqt # rest"
proof (induction s arbitrary: lit rest rule: stateInString.induct)
  case 1
  then show ?case by simp
next
  case (2 c s)
  note p = "2.prems" [unfolded stateInString.simps(2)]
  show ?case
  proof (cases "c = dqt")
    case True
    with p show ?thesis by (simp add: json_chars_Nil)
  next
    case notq: False
    show ?thesis
    proof (cases "c = bsl")
      case True
      note isb = this
      show ?thesis
      proof (cases s)
        case Nil
        with p notq isb show ?thesis by simp
      next
        case (Cons e s')
        show ?thesis
        proof (cases "e \<in> set [CHR ''b'', CHR ''f'', CHR ''n'', CHR ''r'', CHR ''t'', bsl, CHR ''/'', dqt]")
          case True
          with p notq isb Cons obtain l where l: "stateInString s' = Some (l, rest)"
            and lit: "lit = c # e # l"
            by (auto simp del: set_simps split: option.splits)
          from "2.IH"(1) [OF notq isb Cons True l] have "json_chars l" "s' = l @ dqt # rest"
            by simp_all
          with json_chars_escape [OF True, of l] Cons lit isb show ?thesis by simp
        next
          case nesc: False
          show ?thesis
          proof (cases "e = CHR ''u''")
            case True
            with p notq isb Cons nesc obtain h1 h2 h3 h4 s'' l where
              s': "s' = h1 # h2 # h3 # h4 # s''" and hx: "isHex h1 \<and> isHex h2 \<and> isHex h3 \<and> isHex h4"
              and r: "stateInString s'' = Some (l, rest)"
              and lit: "lit = c # e # h1 # h2 # h3 # h4 # l"
              by (auto simp del: set_simps split: option.splits list.splits if_splits)
            from "2.IH"(2) [OF notq isb Cons nesc True s' refl refl refl hx r]
            have "json_chars l" "s'' = l @ dqt # rest"
              by simp_all
            with json_chars_unicode [of h1 h2 h3 h4 l] hx Cons s' lit isb True show ?thesis by simp
          next
            case False
            with p notq isb Cons nesc show ?thesis by (simp del: set_simps)
          qed
        qed
      qed
    next
      case False
      note nb = this
      show ?thesis
      proof (cases "(of_char c :: nat) < 0x20")
        case True
        with p notq nb show ?thesis by simp
      next
        case False
        with p notq nb obtain l where l: "stateInString s = Some (l, rest)" and lit: "lit = c # l"
          by (auto split: option.splits)
        from "2.IH"(3) [OF notq nb False l] have "json_chars l" "s = l @ dqt # rest"
          by simp_all
        with json_chars_plain [OF notq nb False, of l] lit show ?thesis by simp
      qed
    qed
  qed
qed

lemma stateInString_string:
  assumes "stateInString s = Some (lit, rest)"
  obtains t where "json_string t" and "dqt # s = t @ rest"
proof
  from stateInString_chars [OF assms] show "json_string (dqt # lit @ [dqt])"
    by (auto simp: json_string_def)
  from stateInString_chars [OF assms] show "dqt # s = (dqt # lit @ [dqt]) @ rest"
    by simp
qed

lemma member_value_text:
  assumes "member_value s = Some (v, rest)"
  obtains t where "json_string t \<or> t = ''null''" and "s = t @ rest"
proof -
  from member_value_Some [OF assms] show ?thesis
  proof
    assume "\<exists>lit s'. s = dqt # s' \<and> stateInString s' = Some (lit, rest) \<and> unquoteBytes lit = Some v"
    then obtain lit s' where s: "s = dqt # s'" and l: "stateInString s' = Some (lit, rest)"
      by blast
    from stateInString_string [OF l] obtain t where t: "json_string t" "dqt # s' = t @ rest"
      by blast
    from t(2) s have "s = t @ rest"
      by simp
    with t(1) that show ?thesis
      by blast
  next
    assume "s = CHR ''n'' # CHR ''u'' # CHR ''l'' # CHR ''l'' # rest \<and> v = []"
    then have "s = ''null'' @ rest"
      by simp
    with that show ?thesis
      by blast
  qed
qed

lemma object_members_text:
  "object_members acc s = Some mp
   \<Longrightarrow> \<exists>w1 mts w2 rest. json_ws w1 \<and> json_members mts \<and> json_ws w2
         \<and> s = w1 @ mts @ w2 @ CHR ''}'' # rest"
proof (induction "length s" arbitrary: s acc rule: less_induct)
  case less
  show ?case
  proof (rule object_members_Some [OF less.prems])
  fix s1 lit s2 key s3 v s4 c3 s5
  assume 1: "skipSpace s = dqt # s1" and 2: "stateInString s1 = Some (lit, s2)"
    and 3: "unquoteBytes lit = Some key"
    and 4: "skipSpace s2 = CHR '':'' # s3" and 5: "member_value (skipSpace s3) = Some (v, s4)"
    and 6: "skipSpace s4 = c3 # s5"
    and 7: "c3 = CHR '','' \<and> object_members (fmupd key v acc) s5 = Some mp
     \<or> c3 = CHR ''}'' \<and> mp = fmupd key v acc"
    and 8: "length s5 < length s"
  obtain w1 where w1: "json_ws w1" "s = w1 @ skipSpace s"
    by (rule skipSpace_split)
  obtain kt where kt: "json_string kt" "dqt # s1 = kt @ s2"
    using stateInString_string [OF 2] by blast
  obtain w2 where w2: "json_ws w2" "s2 = w2 @ skipSpace s2"
    by (rule skipSpace_split)
  obtain w3 where w3: "json_ws w3" "s3 = w3 @ skipSpace s3"
    by (rule skipSpace_split)
  obtain vt where vt: "json_string vt \<or> vt = ''null''" "skipSpace s3 = vt @ s4"
    using member_value_text [OF 5] by blast
  obtain w4 where w4: "json_ws w4" "s4 = w4 @ skipSpace s4"
    by (rule skipSpace_split)
  define mt where "mt = kt @ w2 @ '':'' @ w3 @ vt"
  have mt: "json_member mt"
    unfolding json_member_def mt_def using kt(1) w2(1) w3(1) vt(1) by blast
  have "s = w1 @ kt @ s2"
    using w1(2) 1 kt(2) by simp
  also have "s2 = w2 @ CHR '':'' # s3"
    using w2(2) 4 by simp
  also have "s3 = w3 @ vt @ s4"
    using w3(2) vt(2) by simp
  also have "s4 = w4 @ c3 # s5"
    using w4(2) 6 by simp
  finally have s: "s = w1 @ mt @ w4 @ c3 # s5"
    by (simp add: mt_def)
  from 7 show ?thesis
  proof
    assume a: "c3 = CHR '','' \<and> object_members (fmupd key v acc) s5 = Some mp"
    from less.hyps [OF 8, of "fmupd key v acc"] a obtain w5 mts w6 rest where
      r: "json_ws w5" "json_members mts" "json_ws w6" "s5 = w5 @ mts @ w6 @ CHR ''}'' # rest"
      by blast
    have "json_members (mt @ w4 @ '','' @ w5 @ mts)"
      by (rule json_members_more [OF mt w4(1) r(1) r(2)])
    moreover have "s = w1 @ (mt @ w4 @ '','' @ w5 @ mts) @ w6 @ CHR ''}'' # rest"
      using s a r(4) by simp
    ultimately show ?thesis
      using w1(1) r(3) by blast
  next
    assume a: "c3 = CHR ''}'' \<and> mp = fmupd key v acc"
    have "json_members mt"
      by (rule json_members_one [OF mt])
    with s a w1(1) w4(1) show ?thesis
      by blast
  qed
  qed
qed

lemma not_isSpace_brace: "\<not> isSpace (CHR ''}'')" "\<not> isSpace (CHR ''{'')" "\<not> isSpace (CHR ''n'')"
  by (simp_all add: isSpace_def)

lemma decode_object_text:
  assumes "decode_object acc s = Some mp"
  shows "\<exists>t rest. json_object (CHR ''{'' # t) \<and> s = t @ rest"
proof -
  obtain w where w: "json_ws w" "s = w @ skipSpace s"
    by (rule skipSpace_split)
  show ?thesis
  proof (cases "skipSpace s")
    case Nil
    with assms show ?thesis
      by (simp add: decode_object_def)
  next
    case (Cons c s')
    show ?thesis
    proof (cases "c = CHR ''}''")
      case True
      have "json_object (CHR ''{'' # w @ ''}'')"
        unfolding json_object_def using w(1) by auto
      moreover have "s = (w @ ''}'') @ s'"
        using w(2) Cons True by simp
      ultimately show ?thesis
        by blast
    next
      case False
      with assms Cons have "object_members acc (c # s') = Some mp"
        by (simp add: decode_object_def)
      from object_members_text [OF this] obtain w1 mts w2 rest where
        r: "json_ws w1" "json_members mts" "json_ws w2" "c # s' = w1 @ mts @ w2 @ CHR ''}'' # rest"
        by blast
      have "json_object (CHR ''{'' # (w @ w1) @ mts @ w2 @ ''}'')"
        unfolding json_object_def using w(1) r(1,2,3)
        by (intro disjI2 exI [of _ "w @ w1"] exI [of _ mts] exI [of _ w2])
           (simp add: json_ws_append)
      moreover have "s = ((w @ w1) @ mts @ w2 @ ''}'') @ rest"
        using w(2) Cons r(4) by simp
      ultimately show ?thesis
        by blast
    qed
  qed
qed

lemma Decoder_Decode_cases:
  "Decoder_Decode c mo = Inl io_EOF \<or> Decoder_Decode c mo = Inl json_DecodeError
   \<or> (\<exists>x. Decoder_Decode c mo = Inr x)"
  unfolding Decoder_Decode_def
  by (simp split: list.splits option.splits)

lemma Decoder_Decode_EOF_iff: "Decoder_Decode c mo = Inl io_EOF \<longleftrightarrow> json_ws c"
  unfolding Decoder_Decode_def skipSpace_Nil_iff [symmetric]
  by (simp split: list.splits option.splits)

lemma Decoder_Decode_text:
  assumes "Decoder_Decode c mo = Inr x"
  shows "begins_with_null_or_object c"
proof -
  obtain w where w: "json_ws w" "c = w @ skipSpace c"
    by (rule skipSpace_split)
  show ?thesis
  proof (cases "skipSpace c")
    case Nil
    with assms show ?thesis
      by (simp add: Decoder_Decode_def)
  next
    case (Cons b s)
    show ?thesis
    proof (cases "b = CHR ''{''")
      case True
      with assms Cons obtain mp where
        "decode_object (case mo of None \<Rightarrow> fmempty | Some mp \<Rightarrow> mp) s = Some mp"
        by (auto simp: Decoder_Decode_def split: option.splits)
      from decode_object_text [OF this] obtain t rest where
        "json_object (CHR ''{'' # t)" "s = t @ rest"
        by blast
      with w Cons True have "json_ws w \<and> (CHR ''{'' # t = ''null'' \<or> json_object (CHR ''{'' # t))
          \<and> c = w @ (CHR ''{'' # t) @ rest"
        by simp
      then show ?thesis
        unfolding begins_with_null_or_object_def by blast
    next
      case False
      with assms Cons have "b = CHR ''n''" and "\<exists>rest. s = ''ull'' @ rest"
        by (auto simp: Decoder_Decode_def split: if_splits list.splits)
      then obtain rest where "b # s = ''null'' @ rest"
        by auto
      with w Cons have "json_ws w \<and> (''null'' = ''null'' \<or> json_object ''null'')
          \<and> c = w @ ''null'' @ rest"
        by simp
      then show ?thesis
        unfolding begins_with_null_or_object_def by blast
    qed
  qed
qed


lemma json_object_head: "json_object s \<Longrightarrow> s \<noteq> [] \<and> hd s = CHR ''{'' \<and> last s = CHR ''}''"
  by (auto simp: json_object_def)

lemma begins_with_null_or_object_head:
  assumes "begins_with_null_or_object c"
  shows "c \<noteq> [] \<and> (isSpace (hd c) \<or> hd c = CHR ''n'' \<or> hd c = CHR ''{'')"
proof -
  from assms obtain w v rest where w: "json_ws w" and v: "v = ''null'' \<or> json_object v"
    and c: "c = w @ v @ rest"
    unfolding begins_with_null_or_object_def by blast
  from v json_object_head [of v] have h: "v \<noteq> [] \<and> (hd v = CHR ''n'' \<or> hd v = CHR ''{'')"
    by auto
  show ?thesis
  proof (cases w)
    case Nil
    with c h show ?thesis
      by simp
  next
    case (Cons a w')
    with w c show ?thesis
      by (simp add: json_ws_def)
  qed
qed

lemma Decode_null: \<open>Decoder_Decode ''null'' (Some fmempty) = Inr None\<close>
  by code_simp

lemma Decode_trailing: \<open>Decoder_Decode ''{}x'' (Some fmempty) = Inr (Some fmempty)\<close>
  by code_simp

lemma Decode_a_null:
  \<open>Decoder_Decode ''{"a":null}'' (Some fmempty) = Inr (Some (fmupd ''a'' [] fmempty))\<close>
  by code_simp

lemma Decode_truncated: \<open>Decoder_Decode ''{"a":'' (Some fmempty) = Inl json_DecodeError\<close>
  by code_simp

section \<open>The decoder accepts every JSON object of strings\<close>




































section \<open>The claims\<close>

text \<open>
  C2. For a store of either kind, a key and a value: when \<^verbatim>\<open>Set(key, v)\<close> returns
  success, a \<^verbatim>\<open>Get(key)\<close> that follows returns \<open>v\<close> with success. In particular
  \<^verbatim>\<open>Set("x","1")\<close>, \<^verbatim>\<open>Set("x","2")\<close>, \<^verbatim>\<open>Get("x")\<close> returns \<^verbatim>\<open>"2"\<close>: the last
  write wins.
\<close>

theorem Set_then_Get:
  "(Storage_Set io fsys st key v = Return (fsys', st', None)
      \<longrightarrow> Storage_Get st' key = (v, None))
   \<and> (Storage_Set io1 fsys st ''x'' ''1'' = Return (fsys1, st1, None)
        \<and> Storage_Set io2 fsys1 st1 ''x'' ''2'' = Return (fsys2, st2, None)
      \<longrightarrow> Storage_Get st2 ''x'' = (''2'', None))"
proof -
  have *: "Storage_Get b k = (v, None)"
    if "Storage_Set i a b0 k v = Return (a', b, None)" for i a b0 k v a' b
    using Storage_Set_Return [OF that] by (auto simp: Storage_Get_map map_index_fmupd)
  show ?thesis
    using * by blast
qed

text \<open>
  The same on a fresh \<^verbatim>\<open>MemStorage\<close>, twice, and on a \<^verbatim>\<open>FileStorage\<close> over an empty file.
\<close>

theorem Set_then_Get_witness:
  "Storage_Set io_ok Map.empty (InMemory NewMemStorage) ''x'' ''1''
     = Return (Map.empty, InMemory \<lparr>m = Some (fmupd ''x'' ''1'' fmempty)\<rparr>, None)
   \<and> Storage_Set io_ok Map.empty (InMemory \<lparr>m = Some (fmupd ''x'' ''1'' fmempty)\<rparr>) ''x'' ''2''
     = Return (Map.empty, InMemory \<lparr>m = Some (fmupd ''x'' ''2'' (fmupd ''x'' ''1'' fmempty))\<rparr>, None)
   \<and> Storage_Get (InMemory \<lparr>m = Some (fmupd ''x'' ''1'' fmempty)\<rparr>) ''x'' = (''1'', None)
   \<and> Storage_Get (InMemory \<lparr>m = Some (fmupd ''x'' ''2'' (fmupd ''x'' ''1'' fmempty))\<rparr>) ''x''
       = (''2'', None)
   \<and> Storage_Set io_ok [''p'' \<mapsto> []]
        (InFile \<lparr>ms = \<lparr>m = Some fmempty\<rparr>, f = File ''p''\<rparr>) ''x'' ''1''
     = Return ([''p'' \<mapsto> Encoder_Encode (Some (fmupd ''x'' ''1'' fmempty))],
               InFile \<lparr>ms = \<lparr>m = Some (fmupd ''x'' ''1'' fmempty)\<rparr>, f = File ''p''\<rparr>, None)
   \<and> Storage_Get (InFile \<lparr>ms = \<lparr>m = Some (fmupd ''x'' ''1'' fmempty)\<rparr>, f = File ''p''\<rparr>) ''x''
       = (''1'', None)"
proof -
  have a: "Storage_Set io_ok Map.empty (InMemory NewMemStorage) ''x'' ''1''
     = Return (Map.empty, InMemory \<lparr>m = Some (fmupd ''x'' ''1'' fmempty)\<rparr>, None)"
    by (simp add: Storage_Set_def MemStorage_Set_def NewMemStorage_def)
  have b: "Storage_Set io_ok Map.empty (InMemory \<lparr>m = Some (fmupd ''x'' ''1'' fmempty)\<rparr>) ''x'' ''2''
     = Return (Map.empty, InMemory \<lparr>m = Some (fmupd ''x'' ''2'' (fmupd ''x'' ''1'' fmempty))\<rparr>, None)"
    by (simp add: Storage_Set_def MemStorage_Set_def)
  have c: "Storage_Set io_ok [''p'' \<mapsto> []]
        (InFile \<lparr>ms = \<lparr>m = Some fmempty\<rparr>, f = File ''p''\<rparr>) ''x'' ''1''
     = Return ([''p'' \<mapsto> Encoder_Encode (Some (fmupd ''x'' ''1'' fmempty))],
               InFile \<lparr>ms = \<lparr>m = Some (fmupd ''x'' ''1'' fmempty)\<rparr>, f = File ''p''\<rparr>, None)"
    by (simp add: Storage_Set_def FileStorage_Set_succeeds [where mp = fmempty] io_ok_def)
  from Set_then_Get [where io = io_ok and fsys = Map.empty and st = "InMemory NewMemStorage"
      and key = "''x''" and v = "''1''" and fsys' = Map.empty
      and st' = "InMemory \<lparr>m = Some (fmupd ''x'' ''1'' fmempty)\<rparr>"
      and ?io1.0 = io_ok and ?io2.0 = io_ok and ?fsys1.0 = Map.empty and ?fsys2.0 = Map.empty
      and ?st1.0 = "InMemory \<lparr>m = Some (fmupd ''x'' ''1'' fmempty)\<rparr>"
      and ?st2.0 = "InMemory \<lparr>m = Some (fmupd ''x'' ''2'' (fmupd ''x'' ''1'' fmempty))\<rparr>"]
    Set_then_Get [where io = io_ok and fsys = "[''p'' \<mapsto> []]"
      and st = "InFile \<lparr>ms = \<lparr>m = Some fmempty\<rparr>, f = File ''p''\<rparr>"
      and key = "''x''" and v = "''1''"
      and fsys' = "[''p'' \<mapsto> Encoder_Encode (Some (fmupd ''x'' ''1'' fmempty))]"
      and st' = "InFile \<lparr>ms = \<lparr>m = Some (fmupd ''x'' ''1'' fmempty)\<rparr>, f = File ''p''\<rparr>"]
    a b c
  show ?thesis
    by simp
qed

text \<open>
  C7. \<^verbatim>\<open>FileStorage.Set\<close> is not atomic. When \<^verbatim>\<open>Set(key, v)\<close> returns an error, the
  map in memory has been updated all the same (\<^verbatim>\<open>Get(key)\<close> returns \<open>v\<close>), and the error
  comes from the truncate, the seek or the write step. Its text starts with the words that
  name that step, and the steps after it have not run: after a failed truncate the file
  system is what it was, after a failed seek the file is truncated and nothing is written,
  after a failed write the file holds what that write has written.
\<close>

theorem Set_failure_keeps_memory_update:
  assumes "FileStorage_Set io fsys fs key v = Return (fsys', fs', Some err)"
  shows "FileStorage_Get fs' key = (v, None)
     \<and> has_key (m (ms fs')) key
     \<and> ((\<exists>e. truncate_fails io = Some e
              \<and> Error lib err = ''unable to truncate file: '' @ lib (os_PathError e)
              \<and> fsys' = fsys)
          \<or> (\<exists>e. truncate_fails io = None \<and> seek_fails io = Some e
              \<and> Error lib err = ''unable to get the beginning of file: '' @ lib (os_PathError e)
              \<and> fsys' = fsys(Name (f fs) \<mapsto> []))
          \<or> (\<exists>n e. truncate_fails io = None \<and> seek_fails io = None
              \<and> write_fails io = Some (n, e)
              \<and> Error lib err = ''unable to encode data into the file: '' @ lib (os_PathError e)
              \<and> fsys' = fsys(Name (f fs) \<mapsto> take n (Encoder_Encode (m (ms fs'))))))"
proof -
  from FileStorage_Set_memory [OF assms] obtain mp where
    mp: "m (ms fs) = Some mp" and fs': "fs' = fs\<lparr>ms := (ms fs)\<lparr>m := Some (fmupd key v mp)\<rparr>\<rparr>"
    by blast
  have g: "FileStorage_Get fs' key = (v, None)" "has_key (m (ms fs')) key"
    by (simp_all add: fs' FileStorage_Get_def MemStorage_Get_def map_index_def has_key_def)
  show ?thesis
  proof (cases "truncate_fails io")
    case (Some e)
    from assms FileStorage_Set_truncate_fails [OF mp Some, of fsys key v]
    have "fsys' = fsys" "err = fmt_Errorf ''unable to truncate file: '' (Some (os_PathError e))"
      by simp_all
    with g Some show ?thesis
      by simp
  next
    case t: None
    show ?thesis
    proof (cases "seek_fails io")
      case (Some e)
      from assms FileStorage_Set_seek_fails [OF mp t Some, of fsys key v]
      have "fsys' = fsys(Name (f fs) \<mapsto> [])"
        "err = fmt_Errorf ''unable to get the beginning of file: '' (Some (os_PathError e))"
        by simp_all
      with g t Some show ?thesis
        by simp
    next
      case s: None
      show ?thesis
      proof (cases "write_fails io")
        case None
        from assms FileStorage_Set_succeeds [OF mp t s None, of fsys key v] show ?thesis
          by simp
      next
        case (Some a)
        obtain n e where a: "a = (n, e)"
          by (cases a)
        from assms FileStorage_Set_write_fails [OF mp t s Some [unfolded a], of fsys key v]
        have "fsys' = fsys(Name (f fs) \<mapsto> take n (Encoder_Encode (Some (fmupd key v mp))))"
          "err = fmt_Errorf ''unable to encode data into the file: '' (Some (os_PathError e))"
          by simp_all
        with g t s Some a show ?thesis
          by (simp add: fs')
      qed
    qed
  qed
qed

text \<open>A \<^verbatim>\<open>Set\<close> whose seek fails, on a store over a file that held \<^verbatim>\<open>{}\<close>.\<close>

theorem Set_failure_keeps_memory_update_witness:
  "FileStorage_Set \<lparr>truncate_fails = None, seek_fails = Some 29, write_fails = None\<rparr>
      [''p'' \<mapsto> ''{}''] \<lparr>ms = \<lparr>m = Some fmempty\<rparr>, f = File ''p''\<rparr> ''k'' ''v''
     = Return ([''p'' \<mapsto> []], \<lparr>ms = \<lparr>m = Some (fmupd ''k'' ''v'' fmempty)\<rparr>, f = File ''p''\<rparr>,
               Some (fmt_Errorf ''unable to get the beginning of file: '' (Some (os_PathError 29))))
   \<and> FileStorage_Get \<lparr>ms = \<lparr>m = Some (fmupd ''k'' ''v'' fmempty)\<rparr>, f = File ''p''\<rparr> ''k''
       = (''v'', None)
   \<and> Error (\<lambda>e. ''illegal seek'')
         (fmt_Errorf ''unable to get the beginning of file: '' (Some (os_PathError 29)))
       = ''unable to get the beginning of file: illegal seek''"
proof -
  have a: "FileStorage_Set \<lparr>truncate_fails = None, seek_fails = Some 29, write_fails = None\<rparr>
      [''p'' \<mapsto> ''{}''] \<lparr>ms = \<lparr>m = Some fmempty\<rparr>, f = File ''p''\<rparr> ''k'' ''v''
     = Return ([''p'' \<mapsto> []], \<lparr>ms = \<lparr>m = Some (fmupd ''k'' ''v'' fmempty)\<rparr>, f = File ''p''\<rparr>,
               Some (fmt_Errorf ''unable to get the beginning of file: '' (Some (os_PathError 29))))"
    by (simp add: FileStorage_Set_seek_fails [where mp = fmempty and e = 29])
  from Set_failure_keeps_memory_update [OF a, of "\<lambda>e. ''illegal seek''"] a show ?thesis
    by simp
qed

lemma do_calls_Gets:
  "\<forall>c \<in> set cs. is_Get c \<Longrightarrow> do_calls w cs = w"
proof (induction cs arbitrary: w)
  case Nil
  then show ?case by simp
next
  case (Cons c cs)
  obtain fsys st where w: "w = (fsys, st)"
    by (cases w)
  from Cons.prems obtain k where "c = CallGet k"
    by (cases c) auto
  with Cons w show ?case
    by simp
qed

text \<open>
  C8. \<^verbatim>\<open>FileStorage.Get\<close> is \<^verbatim>\<open>MemStorage.Get\<close> on the inner storage, whatever the file
  is. For both kinds of store a \<^verbatim>\<open>Get\<close> leaves the map in memory and the file system as
  they are, and so does any sequence of \<^verbatim>\<open>Get\<close>s.
\<close>

theorem Get_has_no_side_effect:
  "FileStorage_Get fs key = MemStorage_Get (ms fs) key
   \<and> FileStorage_Get (fs\<lparr>f := fl\<rparr>) key = FileStorage_Get fs key
   \<and> fst (do_call (fsys, st) (CallGet key)) = (fsys, st)
   \<and> ((\<forall>c \<in> set cs. is_Get c) \<longrightarrow> do_calls (fsys, st) cs = (fsys, st))"
  using do_calls_Gets [of cs "(fsys, st)"] by (simp add: FileStorage_Get_def)

text \<open>Three \<^verbatim>\<open>Get\<close>s on a store of each kind.\<close>

theorem Get_has_no_side_effect_witness:
  "list_all is_Get [CallGet ''a'', CallGet ''b'', CallGet ''a'']
   \<and> do_calls ([''p'' \<mapsto> ''{}''], InFile \<lparr>ms = \<lparr>m = Some fmempty\<rparr>, f = File ''p''\<rparr>)
        [CallGet ''a'', CallGet ''b'', CallGet ''a'']
       = ([''p'' \<mapsto> ''{}''], InFile \<lparr>ms = \<lparr>m = Some fmempty\<rparr>, f = File ''p''\<rparr>)
   \<and> do_calls (Map.empty, InMemory NewMemStorage) [CallGet ''a'', CallGet ''b'', CallGet ''a'']
       = (Map.empty, InMemory NewMemStorage)"
  using Get_has_no_side_effect [where cs = "[CallGet ''a'', CallGet ''b'', CallGet ''a'']"
      and fsys = "[''p'' \<mapsto> ''{}'']"
      and st = "InFile \<lparr>ms = \<lparr>m = Some fmempty\<rparr>, f = File ''p''\<rparr>"]
    Get_has_no_side_effect [where cs = "[CallGet ''a'', CallGet ''b'', CallGet ''a'']"
      and fsys = Map.empty and st = "InMemory NewMemStorage"]
  by simp

text \<open>
  C9. For a store of either kind and two distinct keys: a successful \<^verbatim>\<open>Set(key, v)\<close>
  leaves the result of \<^verbatim>\<open>Get(key')\<close> as it was, the same value or the same error.
\<close>

theorem Set_keeps_other_keys:
  assumes "key \<noteq> key'" and "Storage_Set io fsys st key v = Return (fsys', st', None)"
  shows "Storage_Get st' key' = Storage_Get st key'"
  using Storage_Set_Return [OF assms(2)] assms(1)
  by (auto simp: Storage_Get_map map_index_fmupd)

text \<open>A \<^verbatim>\<open>Set\<close> of \<^verbatim>\<open>k\<close> on a file store that holds \<^verbatim>\<open>a\<close>.\<close>

theorem Set_keeps_other_keys_witness:
  "''k'' \<noteq> ''a''
   \<and> Storage_Set io_ok [''p'' \<mapsto> []]
        (InFile \<lparr>ms = \<lparr>m = Some (fmupd ''a'' ''1'' fmempty)\<rparr>, f = File ''p''\<rparr>) ''k'' ''v''
     = Return ([''p'' \<mapsto> Encoder_Encode (Some (fmupd ''k'' ''v'' (fmupd ''a'' ''1'' fmempty)))],
               InFile \<lparr>ms = \<lparr>m = Some (fmupd ''k'' ''v'' (fmupd ''a'' ''1'' fmempty))\<rparr>,
                       f = File ''p''\<rparr>, None)
   \<and> Storage_Get (InFile \<lparr>ms = \<lparr>m = Some (fmupd ''k'' ''v'' (fmupd ''a'' ''1'' fmempty))\<rparr>,
                       f = File ''p''\<rparr>) ''a'' = (''1'', None)
   \<and> Storage_Get (InFile \<lparr>ms = \<lparr>m = Some (fmupd ''a'' ''1'' fmempty)\<rparr>, f = File ''p''\<rparr>) ''a''
       = (''1'', None)"
proof -
  have a: "Storage_Set io_ok [''p'' \<mapsto> []]
        (InFile \<lparr>ms = \<lparr>m = Some (fmupd ''a'' ''1'' fmempty)\<rparr>, f = File ''p''\<rparr>) ''k'' ''v''
     = Return ([''p'' \<mapsto> Encoder_Encode (Some (fmupd ''k'' ''v'' (fmupd ''a'' ''1'' fmempty)))],
               InFile \<lparr>ms = \<lparr>m = Some (fmupd ''k'' ''v'' (fmupd ''a'' ''1'' fmempty))\<rparr>,
                       f = File ''p''\<rparr>, None)"
    by (simp add: Storage_Set_def FileStorage_Set_succeeds [where mp = "fmupd ''a'' ''1'' fmempty"]
          io_ok_def)
  have b: "''k'' \<noteq> ''a''"
    by simp
  from Set_keeps_other_keys [OF b a] a b show ?thesis
    by (simp add: Storage_Get_map map_index_def)
qed

text \<open>
  C10. For a store of either kind and a key that its map does not have, \<^verbatim>\<open>Get\<close> returns
  the empty string together with the error whose text is \<^verbatim>\<open>err not found\<close>.
\<close>

theorem Get_absent_key:
  assumes "\<not> has_key (Storage_map st) key"
  shows "Storage_Get st key = ([], Some ErrNotFound) \<and> Error lib ErrNotFound = ''err not found''"
  using assms
  by (auto simp: Storage_Get_map map_index_def has_key_def ErrNotFound_def fmdom_notI
      split: option.splits)

text \<open>A fresh \<^verbatim>\<open>MemStorage\<close>, and a \<^verbatim>\<open>FileStorage\<close> whose map is \<^verbatim>\<open>nil\<close>.\<close>

theorem Get_absent_key_witness:
  "\<not> has_key (Storage_map (InMemory NewMemStorage)) ''k''
   \<and> Storage_Get (InMemory NewMemStorage) ''k'' = ([], Some ErrNotFound)
   \<and> \<not> has_key (Storage_map (InFile \<lparr>ms = \<lparr>m = None\<rparr>, f = File ''p''\<rparr>)) ''k''
   \<and> Storage_Get (InFile \<lparr>ms = \<lparr>m = None\<rparr>, f = File ''p''\<rparr>) ''k'' = ([], Some ErrNotFound)
   \<and> Error (\<lambda>e. []) ErrNotFound = ''err not found''"
proof -
  have a: "\<not> has_key (Storage_map (InMemory NewMemStorage)) ''k''"
    by (simp add: has_key_def NewMemStorage_def)
  have b: "\<not> has_key (Storage_map (InFile \<lparr>ms = \<lparr>m = None\<rparr>, f = File ''p''\<rparr>)) ''k''"
    by (simp add: has_key_def)
  from Get_absent_key [OF a, of "\<lambda>e. []"] Get_absent_key [OF b, of "\<lambda>e. []"] a b show ?thesis
    by simp
qed

text \<open>
  C1, amended. When \<^verbatim>\<open>Set\<close> on a \<^verbatim>\<open>FileStorage\<close> returns success, the contents of the
  backing file are exactly what the JSON encoder writes for the map in memory. When all
  keys and values of that map are valid UTF-8, decoding the file gives a map equal to the
  map in memory.
\<close>

theorem Set_success_file_is_encoding:
  assumes "FileStorage_Set io fsys fs key v = Return (fsys', fs', None)"
  shows "file_contents fsys' (f fs') = Encoder_Encode (m (ms fs'))
     \<and> (ValidMap (m (ms fs'))
          \<longrightarrow> Decoder_Decode (file_contents fsys' (f fs')) (Some fmempty) = Inr (m (ms fs')))"
proof -
  from assms [unfolded FileStorage_Set_success_iff] obtain mp where
    "fsys' = fsys(Name (f fs) \<mapsto> Encoder_Encode (Some (fmupd key v mp)))"
    "fs' = fs\<lparr>ms := (ms fs)\<lparr>m := Some (fmupd key v mp)\<rparr>\<rparr>"
    by blast
  then have "file_contents fsys' (f fs') = Encoder_Encode (m (ms fs'))"
    by (simp add: file_contents_def)
  then show ?thesis
    by (simp add: Decode_Encode_fresh)
qed

text \<open>A \<^verbatim>\<open>Set("k", "v")\<close> on a store over an empty file.\<close>

theorem Set_success_file_is_encoding_witness:
  \<open>FileStorage_Set io_ok [''p'' \<mapsto> []] \<lparr>ms = \<lparr>m = Some fmempty\<rparr>, f = File ''p''\<rparr> ''k'' ''v''
     = Return ([''p'' \<mapsto> ''{"k":"v"}'' @ [CHR 0x0A]],
               \<lparr>ms = \<lparr>m = Some (fmupd ''k'' ''v'' fmempty)\<rparr>, f = File ''p''\<rparr>, None)
   \<and> ValidMap (Some (fmupd ''k'' ''v'' fmempty))
   \<and> Decoder_Decode (''{"k":"v"}'' @ [CHR 0x0A]) (Some fmempty)
       = Inr (Some (fmupd ''k'' ''v'' fmempty))\<close>
proof -
  have a: \<open>FileStorage_Set io_ok [''p'' \<mapsto> []] \<lparr>ms = \<lparr>m = Some fmempty\<rparr>, f = File ''p''\<rparr> ''k'' ''v''
     = Return ([''p'' \<mapsto> ''{"k":"v"}'' @ [CHR 0x0A]],
               \<lparr>ms = \<lparr>m = Some (fmupd ''k'' ''v'' fmempty)\<rparr>, f = File ''p''\<rparr>, None)\<close>
    by (simp add: FileStorage_Set_succeeds [where mp = fmempty] io_ok_def Encode_k_v)
  have b: "ValidMap (Some (fmupd ''k'' ''v'' fmempty))"
    using Valid_k_v by (simp add: ValidMap_def fmpred_upd)
  have "ValidMap (m (ms \<lparr>ms = \<lparr>m = Some (fmupd ''k'' ''v'' fmempty)\<rparr>, f = File ''p''\<rparr>))"
    using b by simp
  from Set_success_file_is_encoding [OF a, THEN conjunct2, rule_format, OF this]
  have c: \<open>Decoder_Decode (''{"k":"v"}'' @ [CHR 0x0A]) (Some fmempty)
       = Inr (Some (fmupd ''k'' ''v'' fmempty))\<close>
    by (simp add: file_contents_def)
  from a b c show ?thesis
    by blast
qed

text \<open>
  C1 as stated fails on a value that is not valid UTF-8: \<^verbatim>\<open>Set("k", "\xff")\<close> succeeds,
  the encoder writes the escape of U+FFFD for the byte \<^verbatim>\<open>0xFF\<close>, and decoding the file
  gives the three bytes of U+FFFD where the map in memory has the byte \<^verbatim>\<open>0xFF\<close>.
\<close>

theorem Set_invalid_utf8_counterexample:
  \<open>FileStorage_Set io_ok [''p'' \<mapsto> []] \<lparr>ms = \<lparr>m = Some fmempty\<rparr>, f = File ''p''\<rparr>
       ''k'' [CHR 0xFF]
     = Return ([''p'' \<mapsto> ''{"k":"'' @ [CHR 0x5C] @ ''ufffd"}'' @ [CHR 0x0A]],
               \<lparr>ms = \<lparr>m = Some (fmupd ''k'' [CHR 0xFF] fmempty)\<rparr>, f = File ''p''\<rparr>, None)
   \<and> Decoder_Decode
         (file_contents [''p'' \<mapsto> ''{"k":"'' @ [CHR 0x5C] @ ''ufffd"}'' @ [CHR 0x0A]] (File ''p''))
         (Some fmempty)
       = Inr (Some (fmupd ''k'' [CHR 0xEF, CHR 0xBF, CHR 0xBD] fmempty))
   \<and> fmlookup (fmupd ''k'' [CHR 0xEF, CHR 0xBF, CHR 0xBD] fmempty) ''k''
       \<noteq> fmlookup (fmupd ''k'' [CHR 0xFF] fmempty) ''k''\<close>
proof -
  have \<open>FileStorage_Set io_ok [''p'' \<mapsto> []] \<lparr>ms = \<lparr>m = Some fmempty\<rparr>, f = File ''p''\<rparr>
       ''k'' [CHR 0xFF]
     = Return ([''p'' \<mapsto> ''{"k":"'' @ [CHR 0x5C] @ ''ufffd"}'' @ [CHR 0x0A]],
               \<lparr>ms = \<lparr>m = Some (fmupd ''k'' [CHR 0xFF] fmempty)\<rparr>, f = File ''p''\<rparr>, None)\<close>
    by (simp add: FileStorage_Set_succeeds [where mp = fmempty] io_ok_def Encode_k_xff)
  moreover have \<open>Decoder_Decode
         (file_contents [''p'' \<mapsto> ''{"k":"'' @ [CHR 0x5C] @ ''ufffd"}'' @ [CHR 0x0A]] (File ''p''))
         (Some fmempty)
       = Inr (Some (fmupd ''k'' [CHR 0xEF, CHR 0xBF, CHR 0xBD] fmempty))\<close>
    using Decode_k_ufffd by (simp add: file_contents_def)
  ultimately show ?thesis
    by simp
qed

text \<open>
  C3. Persistence across reopening: when a \<^verbatim>\<open>FileStorage\<close> has been constructed at a
  path, whatever the file held, and \<^verbatim>\<open>Set(key, v)\<close> succeeds on it for a key and a value
  that are valid UTF-8 (\<^verbatim>\<open>"k"\<close> and \<^verbatim>\<open>"v"\<close> are), then constructing a \<^verbatim>\<open>FileStorage\<close> at
  the same path again succeeds, with the map the first store had, and \<^verbatim>\<open>Get(key)\<close> on it
  returns \<open>v\<close>.
\<close>

theorem Set_persists_across_reopen:
  assumes "NewFileStorage open_fails fsys path = (fsys1, Inr fs1)"
    and "ValidString key" and "ValidString v"
    and "FileStorage_Set io fsys1 fs1 key v = Return (fsys2, fs2, None)"
  shows "NewFileStorage None fsys2 path = (fsys2, Inr fs2)
     \<and> FileStorage_Get fs2 key = (v, None)"
proof -
  from assms(4) [unfolded FileStorage_Set_success_iff] obtain mp where
    mp: "m (ms fs1) = Some mp"
    and fsys2: "fsys2 = fsys1(Name (f fs1) \<mapsto> Encoder_Encode (Some (fmupd key v mp)))"
    and fs2: "fs2 = fs1\<lparr>ms := (ms fs1)\<lparr>m := Some (fmupd key v mp)\<rparr>\<rparr>"
    by blast
  from NewFileStorage_file(1) [OF assms(1)] have fl: "f fs1 = File path" .
  from NewFileStorage_valid [OF assms(1)] mp have "ValidMap (Some mp)"
    by simp
  then have v: "ValidMap (Some (fmupd key v mp))"
    using assms(2,3) by (rule ValidMap_fmupd)
  have c: "fsys2 path = Some (Encoder_Encode (Some (fmupd key v mp)))"
    by (simp add: fsys2 fl)
  have "NewFileStorage None fsys2 path
      = (fsys2, Inr \<lparr>ms = \<lparr>m = Some (fmupd key v mp)\<rparr>, f = File path\<rparr>)"
    unfolding NewFileStorage_existing [of fsys2 path, OF c] Decode_Encode_fresh [OF v] by simp
  moreover have "\<lparr>ms = \<lparr>m = Some (fmupd key v mp)\<rparr>, f = File path\<rparr> = fs2"
    by (rule FileStorage_eq) (simp_all add: fs2 fl)
  moreover have "FileStorage_Get fs2 key = (v, None)"
    by (simp add: fs2 FileStorage_Get_def MemStorage_Get_def map_index_def)
  ultimately show ?thesis
    by simp
qed

text \<open>The scenario of the claim, on a path where there is no file yet.\<close>

theorem Set_persists_across_reopen_witness:
  \<open>NewFileStorage None Map.empty ''p''
     = ([''p'' \<mapsto> []], Inr \<lparr>ms = \<lparr>m = Some fmempty\<rparr>, f = File ''p''\<rparr>)
   \<and> ValidString ''k'' \<and> ValidString ''v''
   \<and> FileStorage_Set io_ok [''p'' \<mapsto> []] \<lparr>ms = \<lparr>m = Some fmempty\<rparr>, f = File ''p''\<rparr> ''k'' ''v''
     = Return ([''p'' \<mapsto> ''{"k":"v"}'' @ [CHR 0x0A]],
               \<lparr>ms = \<lparr>m = Some (fmupd ''k'' ''v'' fmempty)\<rparr>, f = File ''p''\<rparr>, None)
   \<and> NewFileStorage None [''p'' \<mapsto> ''{"k":"v"}'' @ [CHR 0x0A]] ''p''
     = ([''p'' \<mapsto> ''{"k":"v"}'' @ [CHR 0x0A]],
        Inr \<lparr>ms = \<lparr>m = Some (fmupd ''k'' ''v'' fmempty)\<rparr>, f = File ''p''\<rparr>)
   \<and> FileStorage_Get \<lparr>ms = \<lparr>m = Some (fmupd ''k'' ''v'' fmempty)\<rparr>, f = File ''p''\<rparr> ''k''
       = (''v'', None)\<close>
proof -
  have a: "NewFileStorage None Map.empty ''p''
     = ([''p'' \<mapsto> []], Inr \<lparr>ms = \<lparr>m = Some fmempty\<rparr>, f = File ''p''\<rparr>)"
    by (simp add: NewFileStorage_def os_OpenFile_def file_contents_def Decode_empty)
  have b: \<open>FileStorage_Set io_ok [''p'' \<mapsto> []] \<lparr>ms = \<lparr>m = Some fmempty\<rparr>, f = File ''p''\<rparr> ''k'' ''v''
     = Return ([''p'' \<mapsto> ''{"k":"v"}'' @ [CHR 0x0A]],
               \<lparr>ms = \<lparr>m = Some (fmupd ''k'' ''v'' fmempty)\<rparr>, f = File ''p''\<rparr>, None)\<close>
    by (simp add: FileStorage_Set_succeeds [where mp = fmempty] io_ok_def Encode_k_v)
  from Set_persists_across_reopen [OF a Valid_k_v b] a b Valid_k_v show ?thesis
    by blast
qed



text \<open>
  C4, amended. For a store of either kind, \<^verbatim>\<open>Get(key)\<close> returns an error exactly when the
  map of the store does not have the key. When the map does not have the key, and no
  \<^verbatim>\<open>Set\<close> of that key is among the calls that follow, \<^verbatim>\<open>Get(key)\<close> after them returns the
  not-found error. The map of a fresh \<^verbatim>\<open>MemStorage\<close> has no key; the map of a fresh
  \<^verbatim>\<open>FileStorage\<close> has the keys decoded from the backing file.
\<close>

theorem Get_NotFound_unless_in_map:
  "(snd (Storage_Get st key) \<noteq> None \<longleftrightarrow> \<not> has_key (Storage_map st) key)
   \<and> (\<not> has_key (Storage_map st) key \<and> (\<forall>c \<in> set cs. \<not> sets_key key c)
      \<longrightarrow> Storage_Get (snd (do_calls (fsys, st) cs)) key = ([], Some ErrNotFound))
   \<and> \<not> has_key (Storage_map (InMemory NewMemStorage)) key"
proof -
  have "Storage_Get (snd (do_calls (fsys, st) cs)) key = ([], Some ErrNotFound)"
    if "\<not> has_key (Storage_map st) key" "\<forall>c \<in> set cs. \<not> sets_key key c"
    using do_calls_keep_absent [OF that, of fsys]
    by (auto simp: Storage_Get_map map_index_def has_key_def fmdom_notI split: option.splits)
  then show ?thesis
    using Storage_Get_error_iff [of st key] by (simp add: NewMemStorage_def has_key_empty)
qed

text \<open>A fresh \<^verbatim>\<open>MemStorage\<close>, two \<^verbatim>\<open>Set\<close>s of other keys, and \<^verbatim>\<open>Get("k")\<close>.\<close>

theorem Get_NotFound_unless_in_map_witness:
  "\<not> has_key (Storage_map (InMemory NewMemStorage)) ''k''
   \<and> list_all (\<lambda>c. \<not> sets_key ''k'' c)
        [CallSet ''a'' ''1'' io_ok, CallGet ''k'', CallSet ''b'' ''2'' io_ok]
   \<and> Storage_Get (snd (do_calls (Map.empty, InMemory NewMemStorage)
        [CallSet ''a'' ''1'' io_ok, CallGet ''k'', CallSet ''b'' ''2'' io_ok])) ''k''
       = ([], Some ErrNotFound)"
proof -
  have a: "\<not> has_key (Storage_map (InMemory NewMemStorage)) ''k''"
    by (simp add: NewMemStorage_def has_key_empty)
  have b: "\<forall>c \<in> set [CallSet ''a'' ''1'' io_ok, CallGet ''k'', CallSet ''b'' ''2'' io_ok].
        \<not> sets_key ''k'' c"
    by simp
  from Get_NotFound_unless_in_map [where st = "InMemory NewMemStorage" and key = "''k''"
      and cs = "[CallSet ''a'' ''1'' io_ok, CallGet ''k'', CallSet ''b'' ''2'' io_ok]"
      and fsys = Map.empty] a b
  show ?thesis
    by (simp only: list_all_iff) blast
qed

text \<open>
  C4 as stated fails on a \<^verbatim>\<open>FileStorage\<close> constructed on a file that holds
  \<^verbatim>\<open>{"a":"1"}\<close>: no \<^verbatim>\<open>Set\<close> has been called on it, and \<^verbatim>\<open>Get("a")\<close> returns \<^verbatim>\<open>"1"\<close> with
  success.
\<close>

theorem Get_loaded_key_counterexample:
  \<open>snd (NewFileStorage None [''p'' \<mapsto> ''{"a":"1"}''] ''p'')
     = Inr \<lparr>ms = \<lparr>m = Some (fmupd ''a'' ''1'' fmempty)\<rparr>, f = File ''p''\<rparr>
   \<and> FileStorage_Get \<lparr>ms = \<lparr>m = Some (fmupd ''a'' ''1'' fmempty)\<rparr>, f = File ''p''\<rparr> ''a''
       = (''1'', None)\<close>
  by (simp add: NewFileStorage_existing Decode_a FileStorage_Get_def MemStorage_Get_def
        map_index_def)

text \<open>
  C5, amended. When the file holds a byte that is not white space, and its content does
  not begin, after white space, with \<^verbatim>\<open>null\<close> or with a JSON object whose keys are strings
  and whose values are strings or \<^verbatim>\<open>null\<close>, constructing a \<^verbatim>\<open>FileStorage\<close> on it fails with
  the error \<^verbatim>\<open>unable to decode contents of file\<close> around the decoder's error; no store is
  returned and the file is left as it was.
\<close>

theorem construct_fails_on_other_content:
  assumes "fsys filename = Some content"
    and "\<not> json_ws content"
    and "\<not> begins_with_null_or_object content"
  shows "NewFileStorage None fsys filename =
     (fsys, Inl (fmt_Errorf (''unable to decode contents of file '' @ filename @ '': '')
                   (Some json_DecodeError)))"
proof -
  from assms(2) have "Decoder_Decode content (Some fmempty) \<noteq> Inl io_EOF"
    by (simp add: Decoder_Decode_EOF_iff)
  moreover from assms(3) have "Decoder_Decode content (Some fmempty) \<noteq> Inr x" for x
    using Decoder_Decode_text [of content "Some fmempty" x] by blast
  ultimately have "Decoder_Decode content (Some fmempty) = Inl json_DecodeError"
    using Decoder_Decode_cases [of content "Some fmempty"] by blast
  then show ?thesis
    by (simp add: NewFileStorage_existing [of fsys filename content, OF assms(1)])
qed

text \<open>The file holds \<^verbatim>\<open>"not json"\<close>, a JSON string and not an object.\<close>

theorem construct_fails_on_other_content_witness:
  \<open>[''p'' \<mapsto> ''"not json"''] ''p'' = Some ''"not json"''
   \<and> \<not> json_ws ''"not json"''
   \<and> \<not> begins_with_null_or_object ''"not json"''
   \<and> NewFileStorage None [''p'' \<mapsto> ''"not json"''] ''p''
       = ([''p'' \<mapsto> ''"not json"''],
          Inl (fmt_Errorf ''unable to decode contents of file p: '' (Some json_DecodeError)))\<close>
proof -
  have a: \<open>[''p'' \<mapsto> ''"not json"''] ''p'' = Some ''"not json"''\<close>
    by simp
  have b: \<open>\<not> json_ws ''"not json"''\<close>
    by (simp add: json_ws_def isSpace_def)
  have c: \<open>\<not> begins_with_null_or_object ''"not json"''\<close>
    using begins_with_null_or_object_head [of \<open>''"not json"''\<close>] by (auto simp: isSpace_def)
  from construct_fails_on_other_content
      [of \<open>[''p'' \<mapsto> ''"not json"'']\<close> \<open>''p''\<close> \<open>''"not json"''\<close>, OF a b c] a b c
  show ?thesis
    by simp
qed

text \<open>
  C5 as stated fails on three files whose content is not empty and is not a JSON object:
  on a file that holds one space, construction succeeds with an empty map; on a file that
  holds \<^verbatim>\<open>null\<close>, it succeeds with the \<^verbatim>\<open>nil\<close> map; on a file that holds \<^verbatim>\<open>{}x\<close>, it
  succeeds with an empty map, the decoder reading the first value only.
\<close>

theorem construct_succeeds_on_non_object_counterexample:
  \<open>'' '' \<noteq> [] \<and> \<not> json_object '' ''
   \<and> NewFileStorage None [''p'' \<mapsto> '' ''] ''p''
       = ([''p'' \<mapsto> '' ''], Inr \<lparr>ms = \<lparr>m = Some fmempty\<rparr>, f = File ''p''\<rparr>)
   \<and> \<not> json_object ''null''
   \<and> NewFileStorage None [''p'' \<mapsto> ''null''] ''p''
       = ([''p'' \<mapsto> ''null''], Inr \<lparr>ms = \<lparr>m = None\<rparr>, f = File ''p''\<rparr>)
   \<and> \<not> json_object ''{}x''
   \<and> NewFileStorage None [''p'' \<mapsto> ''{}x''] ''p''
       = ([''p'' \<mapsto> ''{}x''], Inr \<lparr>ms = \<lparr>m = Some fmempty\<rparr>, f = File ''p''\<rparr>)\<close>
proof -
  have \<open>\<not> json_object '' ''\<close> \<open>\<not> json_object ''null''\<close> \<open>\<not> json_object ''{}x''\<close>
    using json_object_head [of \<open>'' ''\<close>] json_object_head [of \<open>''null''\<close>]
      json_object_head [of \<open>''{}x''\<close>]
    by auto
  then show ?thesis
    by (simp add: NewFileStorage_existing Decode_space Decode_null Decode_trailing)
qed

end
